theory Spec2Isabelle
  imports Main
begin

section \<open>Errors raised by the reader and writer\<close>

text \<open>
  This theory embeds \<^verbatim>\<open>navis/io/nmx_io.py\<close>: the reconstruction of parent identifiers
  from the edge table in \<^verbatim>\<open>NMLReader.read_nml\<close>, the archive reader
  \<^verbatim>\<open>NMXReader.read_buffer\<close> and the writer \<^verbatim>\<open>write_nml\<close>. The calls into networkx and
  pandas are modelled by what these libraries do on the values that reach them.

  The exceptions of the module and of the library calls it makes are values. A
  computation that may raise returns \<open>error + 'a\<close>, with \<open>Inl\<close> for the exception.
\<close>

datatype error =
    IndexError
  | ValueError
  | TypeError
  | AttributeError
  | BadZipFile

section \<open>The undirected graph built from the edge table\<close>

text \<open>
  \<^verbatim>\<open>G = nx.Graph(); G.add_edges_from(edges.values)\<close>

  A networkx graph keeps a dictionary from each node to the dictionary of its neighbours;
  both keep insertion order. The model is an association list from a node to the list of
  its neighbours, in insertion order. Node identifiers are integers.
\<close>

type_synonym graph = "(int \<times> int list) list"

definition gnodes :: "graph \<Rightarrow> int list" where
  "gnodes g = map fst g"

text \<open>\<^verbatim>\<open>if u not in self._node: self._adj[u] = {}\<close>\<close>

definition add_node :: "int \<Rightarrow> graph \<Rightarrow> graph" where
  "add_node u g = (if u \<in> set (gnodes g) then g else g @ [(u, [])])"

text \<open>\<^verbatim>\<open>self._adj[u][v] = datadict\<close>: a key that is already present keeps its position.\<close>

definition add_nbr :: "int \<Rightarrow> int \<Rightarrow> graph \<Rightarrow> graph" where
  "add_nbr u v g =
     map (\<lambda>(k, ns). if k = u then (k, if v \<in> set ns then ns else ns @ [v]) else (k, ns)) g"

definition add_edge :: "int \<times> int \<Rightarrow> graph \<Rightarrow> graph" where
  "add_edge e g =
     (case e of (u, v) \<Rightarrow> add_nbr v u (add_nbr u v (add_node v (add_node u g))))"

definition add_edges_from :: "(int \<times> int) list \<Rightarrow> graph \<Rightarrow> graph" where
  "add_edges_from es g = fold add_edge es g"

text \<open>
  \<^verbatim>\<open>G.neighbors(n)\<close>: the neighbours of a node of the graph, in insertion order. The
  traversal asks for nodes of the graph only; for any other identifier the model gives
  the empty list.
\<close>

fun neighbors :: "graph \<Rightarrow> int \<Rightarrow> int list" where
  "neighbors [] u = []"
| "neighbors ((k, ns) # g) u = (if k = u then ns else neighbors g u)"

section \<open>Breadth-first traversal\<close>

text \<open>
  \<^verbatim>\<open>nx.bfs_tree(G, source)\<close> collects the edges that \<^verbatim>\<open>bfs_edges\<close> yields. The library
  keeps a queue of discovered nodes and the set of nodes visited so far:
  \<^verbatim>\<open>
  visited = {source}
  queue = deque([(source, neighbors(source))])
  while queue:
      parent, children = queue[0]
      for child in children:
          if child not in visited:
              yield parent, child
              visited.add(child)
              queue.append((child, neighbors(child)))
      queue.popleft()
  \<close>
  (the depth limit of the library is the number of nodes and never cuts the traversal).
  The state of the model is the queue, the nodes seen and the edges yielded so far;
  \<open>visit_children\<close> is the inner loop over the neighbours of the node at the head of the
  queue and \<open>bfs_loop\<close> the outer one. The outer loop ends because every pass takes a node
  from the queue and every node enters the queue at most once.
\<close>

type_synonym bfs_state = "int list \<times> int list \<times> (int \<times> int) list"

fun visit_children :: "int \<Rightarrow> int list \<Rightarrow> bfs_state \<Rightarrow> bfs_state" where
  "visit_children p [] st = st"
| "visit_children p (c # cs) (queue, seen, out) =
     (if c \<in> set seen then visit_children p cs (queue, seen, out)
      else visit_children p cs (queue @ [c], c # seen, out @ [(p, c)]))"

text \<open>All nodes that occur in the adjacency structure, as keys or as neighbours.\<close>

definition gverts :: "graph \<Rightarrow> int set" where
  "gverts g = set (gnodes g) \<union> (\<Union>ns \<in> snd ` set g. set ns)"

definition bfs_measure :: "graph \<Rightarrow> bfs_state \<Rightarrow> nat" where
  "bfs_measure g st =
     (case st of (queue, seen, out) \<Rightarrow> length queue + 2 * card (gverts g - set seen))"

lemma finite_gverts: "finite (gverts g)"
  by (simp add: gverts_def)

lemma neighbors_gverts: "set (neighbors g u) \<subseteq> gverts g"
  by (induction g) (fastforce simp: gverts_def gnodes_def split: if_splits)+

lemma visit_children_measure:
  "set cs \<subseteq> gverts g \<Longrightarrow>
   bfs_measure g (visit_children p cs (queue, seen, out)) \<le> bfs_measure g (queue, seen, out)"
proof (induction cs arbitrary: queue seen out)
  case Nil
  then show ?case by simp
next
  case (Cons c cs)
  show ?case
  proof (cases "c \<in> set seen")
    case True
    with Cons show ?thesis by simp
  next
    case False
    have fin: "finite (gverts g - set seen)" by (simp add: finite_gverts)
    have cin: "c \<in> gverts g - set seen" using Cons.prems False by simp
    have eq: "gverts g - set (c # seen) = (gverts g - set seen) - {c}" by auto
    have "card (gverts g - set (c # seen)) = card (gverts g - set seen) - 1"
      unfolding eq using fin cin by simp
    moreover have "0 < card (gverts g - set seen)"
      using fin cin by (auto simp: card_gt_0_iff)
    ultimately have step: "bfs_measure g (queue @ [c], c # seen, out @ [(p, c)])
        \<le> bfs_measure g (queue, seen, out)"
      by (simp add: bfs_measure_def)
    have "bfs_measure g (visit_children p cs (queue @ [c], c # seen, out @ [(p, c)]))
        \<le> bfs_measure g (queue @ [c], c # seen, out @ [(p, c)])"
      using Cons.IH Cons.prems by simp
    with step False show ?thesis by simp
  qed
qed

function bfs_loop :: "graph \<Rightarrow> bfs_state \<Rightarrow> bfs_state" where
  "bfs_loop g ([], seen, out) = ([], seen, out)"
| "bfs_loop g (p # queue, seen, out) =
     bfs_loop g (visit_children p (neighbors g p) (queue, seen, out))"
  by pat_completeness auto
termination
proof (relation "measure (\<lambda>(g, st). bfs_measure g st)")
  show "wf (measure (\<lambda>(g, st). bfs_measure g st))" by simp
next
  fix g :: graph and p :: int and queue seen :: "int list" and out :: "(int \<times> int) list"
  have "bfs_measure g (visit_children p (neighbors g p) (queue, seen, out))
      \<le> bfs_measure g (queue, seen, out)"
    by (rule visit_children_measure) (rule neighbors_gverts)
  also have "\<dots> < bfs_measure g (p # queue, seen, out)"
    by (simp add: bfs_measure_def)
  finally show "((g, visit_children p (neighbors g p) (queue, seen, out)),
                 (g, p # queue, seen, out)) \<in> measure (\<lambda>(g, st). bfs_measure g st)"
    by simp
qed

definition bfs_edges :: "graph \<Rightarrow> int \<Rightarrow> (int \<times> int) list" where
  "bfs_edges g source = snd (snd (bfs_loop g ([source], [source], [])))"

text \<open>
  \<^verbatim>\<open>T = nx.DiGraph(); T.add_node(source); T.add_edges_from(edges_gen)\<close>: the directed
  graph keeps for each node the list of its successors.
\<close>

definition add_arc :: "int \<times> int \<Rightarrow> graph \<Rightarrow> graph" where
  "add_arc e t = (case e of (u, v) \<Rightarrow> add_nbr u v (add_node v (add_node u t)))"

definition bfs_tree :: "graph \<Rightarrow> int \<Rightarrow> graph" where
  "bfs_tree g source = fold add_arc (bfs_edges g source) (add_node source [])"

text \<open>\<^verbatim>\<open>list(tree.edges)\<close>: for each node in insertion order, the arcs to its successors.\<close>

definition tree_edges :: "graph \<Rightarrow> (int \<times> int) list" where
  "tree_edges t = concat (map (\<lambda>(u, vs). map (Pair u) vs) t)"

section \<open>Canonicalization: from the edge table to parent identifiers\<close>

text \<open>
  The columns of lines 122 and 123 hold whole numbers in one of two ways. An integer
  column holds them as they are. A float64 column holds doubles: \<open>None\<close> is the missing
  value NaN, and \<open>Some v\<close> is the double whose value is the whole number \<open>v\<close>.
\<close>

datatype column = IntColumn "int list" | FloatColumn "int option list"

text \<open>
  The conversion of an integer to float64 rounds to the nearest double, to the even
  mantissa on a tie. A double has a mantissa of 53 bits, and 9007199254740992 is
  \<open>2 ^ 53\<close>: \<open>drop_bits n\<close> is the number of low bits of \<open>n\<close> that do not fit, and
  \<open>round_half_even\<close> rounds them away. Identifiers have at most 64 bits, far from the
  largest double.
\<close>

function drop_bits :: "int \<Rightarrow> nat" where
  "drop_bits n = (if n < 9007199254740992 then 0 else Suc (drop_bits (n div 2)))"
  by pat_completeness auto
termination
  by (relation "measure nat") auto

declare drop_bits.simps [simp del]

definition round_half_even :: "int \<Rightarrow> int" where
  "round_half_even n =
     (let e = drop_bits n; q = n div 2 ^ e; r = n mod 2 ^ e
      in if 2 ^ e < 2 * r \<or> (2 * r = 2 ^ e \<and> odd q) then (q + 1) * 2 ^ e else q * 2 ^ e)"

definition float64_of_int :: "int \<Rightarrow> int" where
  "float64_of_int x = (if x < 0 then - round_half_even (- x) else round_half_even x)"

text \<open>
  The conversion of a whole double back to the integer type of the identifiers keeps its
  value when the value is in the range of the type. The identifiers of the tables are in
  that range; the only double out of it that rounding can produce is \<open>2 ^ 63\<close>, which is
  9223372036854775808, from a 64-bit identifier within 512 of it, and there the
  conversion is left to the processor (x86-64 gives the smallest 64-bit integer, which
  the model takes).
\<close>

definition int_of_float64 :: "int \<Rightarrow> int" where
  "int_of_float64 v =
     (if - 9223372036854775808 \<le> v \<and> v < 9223372036854775808 then v
      else - 9223372036854775808)"

text \<open>
  \<^verbatim>\<open>edges.set_index('target').reindex(nodes.node_id.values).source.values\<close>

  The frame of tree edges is indexed by its target column; \<open>reindex\<close> looks every node
  identifier up in that index. Pandas refuses to reindex an index with duplicate labels
  (a \<^verbatim>\<open>ValueError\<close>). When every identifier is found, the \<^verbatim>\<open>source\<close> column stays an
  integer column. When one is missing (the start of the traversal is the target of no
  edge), its row is NaN and the whole column becomes float64, so that every source
  identifier in it is converted to a double.
\<close>

definition reindex_source :: "(int \<times> int) list \<Rightarrow> int list \<Rightarrow> error + column" where
  "reindex_source edges ids =
     (if \<not> distinct (map snd edges) then Inl ValueError
      else (let found = map (map_of (map (\<lambda>(s, t). (t, s)) edges)) ids
            in case those found of
                 Some sources \<Rightarrow> Inr (IntColumn sources)
               | None \<Rightarrow> Inr (FloatColumn (map (map_option float64_of_int) found))))"

text \<open>\<^verbatim>\<open>nodes.parent_id.fillna(-1)\<close>: the missing values of a float64 column become -1.\<close>

fun fillna :: "int \<Rightarrow> column \<Rightarrow> column" where
  "fillna d (IntColumn xs) = IntColumn xs"
| "fillna d (FloatColumn vs) =
     FloatColumn (map (\<lambda>v. case v of None \<Rightarrow> Some d | Some x \<Rightarrow> Some x) vs)"

text \<open>
  \<^verbatim>\<open>.astype(self._dtypes['node_id'])\<close>: an integer column is unchanged; a float64 column
  is converted value by value, and pandas raises \<^verbatim>\<open>ValueError\<close> when it still holds a
  missing value.
\<close>

fun astype_int :: "column \<Rightarrow> error + int list" where
  "astype_int (IntColumn xs) = Inr xs"
| "astype_int (FloatColumn vs) =
     (case those vs of
        None \<Rightarrow> Inl ValueError
      | Some xs \<Rightarrow> Inr (map int_of_float64 xs))"

text \<open>
  Lines 118 to 123 of \<^verbatim>\<open>NMLReader.read_nml\<close>, on the \<^verbatim>\<open>node_id\<close> column of the node
  table and the rows of the edge table (columns in the order of the frame): the
  \<^verbatim>\<open>parent_id\<close> column, in the order of the node table. \<^verbatim>\<open>list(G.nodes)[0]\<close> raises
  \<^verbatim>\<open>IndexError\<close> when the graph has no node. A node table without rows comes from
  \<^verbatim>\<open>DataFrame.from_records([])\<close> and has no columns, so that \<^verbatim>\<open>nodes.node_id\<close> in line
  122 raises \<^verbatim>\<open>AttributeError\<close>.
\<close>

definition bfs_source :: "graph \<Rightarrow> error + int" where
  "bfs_source g = (case gnodes g of [] \<Rightarrow> Inl IndexError | s # _ \<Rightarrow> Inr s)"

definition parent_id_column :: "int list \<Rightarrow> (int \<times> int) list \<Rightarrow> error + int list" where
  "parent_id_column node_id edges =
     (let G = add_edges_from edges [] in
      case bfs_source G of
        Inl e \<Rightarrow> Inl e
      | Inr source \<Rightarrow>
          (let tree = bfs_tree G source in
           if node_id = [] then Inl AttributeError
           else case reindex_source (tree_edges tree) node_id of
             Inl e \<Rightarrow> Inl e
           | Inr parent_id \<Rightarrow> astype_int (fillna (- 1) parent_id)))"

text \<open>
  Canonicalization is lines 118 to 124: the parent column is attached to the node
  identifiers and \<^verbatim>\<open>nodes.sort_values('node_id')\<close> puts the rows in ascending order of
  \<^verbatim>\<open>node_id\<close>. The result lists the pairs (node_id, parent_id). Rows with the same
  identifier carry the same parent, so that their relative order does not show.
\<close>

definition canonicalize :: "int list \<Rightarrow> (int \<times> int) list \<Rightarrow> error + (int \<times> int) list" where
  "canonicalize node_id edges =
     (case parent_id_column node_id edges of
        Inl e \<Rightarrow> Inl e
      | Inr parent_id \<Rightarrow> Inr (sort_key fst (zip node_id parent_id)))"

section \<open>Reading one skeleton\<close>

text \<open>
  The attributes dictionary that callers pass to the readers: keys are strings, values
  are strings or any other object.
\<close>

datatype 'o pyvalue = Str string | Obj 'o

type_synonym 'o attrs = "string \<rightharpoonup> 'o pyvalue"

text \<open>
  \<^verbatim>\<open>NMLReader.read_nml\<close> parses the XML text with \<^verbatim>\<open>xml.etree\<close>, builds the node and
  edge frames with pandas (lines 102 to 116) and hands the finished node table to
  \<^verbatim>\<open>core.TreeNeuron\<close> with the attributes that \<^verbatim>\<open>_make_attributes\<close> merges (lines 126
  to 129). Neither lies in this module; they are the two fields of the environment. A row
  of the node table is its \<^verbatim>\<open>node_id\<close> and the remaining columns (label, position,
  radius), of the type \<open>'r\<close>; \<open>sort_key\<close> keeps rows with the same identifier in their
  order.
\<close>

record ('c, 'r, 'o, 'n) env =
  load_tables :: "'c \<Rightarrow> error + ((int \<times> 'r) list \<times> (int \<times> int) list)"
  TreeNeuron :: "((int \<times> 'r) \<times> int) list \<Rightarrow> 'o attrs option \<Rightarrow> error + 'n"

definition read_nml ::
  "('c, 'r, 'o, 'n) env \<Rightarrow> 'c \<Rightarrow> 'o attrs option \<Rightarrow> error + 'n" where
  "read_nml E f attrs =
     (case load_tables E f of
        Inl e \<Rightarrow> Inl e
      | Inr (nodes, edges) \<Rightarrow>
          (case parent_id_column (map fst nodes) edges of
             Inl e \<Rightarrow> Inl e
           | Inr parent_id \<Rightarrow>
               TreeNeuron E (sort_key (\<lambda>row. fst (fst row)) (zip nodes parent_id)) attrs))"

section \<open>Reading from an archive\<close>

text \<open>\<^verbatim>\<open>s.endswith(suffix)\<close>, \<^verbatim>\<open>sub in s\<close> and \<^verbatim>\<open>s.split(sep)[0]\<close> on strings.\<close>

definition endswith :: "string \<Rightarrow> string \<Rightarrow> bool" where
  "endswith s suffix \<longleftrightarrow>
     length suffix \<le> length s \<and> drop (length s - length suffix) s = suffix"

fun contains :: "string \<Rightarrow> string \<Rightarrow> bool" where
  "contains [] sub = (sub = [])"
| "contains (c # cs) sub = (take (length sub) (c # cs) = sub \<or> contains cs sub)"

definition split_first :: "char \<Rightarrow> string \<Rightarrow> string" where
  "split_first sep s = takeWhile (\<lambda>c. c \<noteq> sep) s"

text \<open>
  The buffer handed to \<^verbatim>\<open>NMXReader.read_buffer\<close> is opened in text or in binary mode;
  \<^verbatim>\<open>f.read(0)\<close> is a \<^verbatim>\<open>str\<close> for the first and \<^verbatim>\<open>bytes\<close> for the second. Such a buffer
  has no attribute \<^verbatim>\<open>filename\<close>.
\<close>

datatype 'b buffer = TextIO string | BytesIO 'b

text \<open>A member of the archive: an entry of \<^verbatim>\<open>zip.filelist\<close> and what \<^verbatim>\<open>zip.read\<close> returns for it.\<close>

record 'c zipinfo =
  filename :: string
  content :: 'c

text \<open>What the reader does besides returning: opening the archive and logging a warning.\<close>

datatype event = ZipOpened | Warning string

text \<open>
  \<^verbatim>\<open>attrs[key] = value\<close>: item assignment on \<^verbatim>\<open>None\<close> raises \<^verbatim>\<open>TypeError\<close>; on a
  dictionary it changes the dictionary of the caller.
\<close>

definition setitem :: "'o attrs option \<Rightarrow> string \<Rightarrow> 'o pyvalue \<Rightarrow> error + 'o attrs option" where
  "setitem attrs key v =
     (case attrs of None \<Rightarrow> Inl TypeError | Some d \<Rightarrow> Inr (Some (d(key \<mapsto> v))))"

definition qualifies :: "string \<Rightarrow> bool" where
  "qualifies name \<longleftrightarrow> endswith name ''.nml'' \<and> contains name ''skeleton''"

definition skipped_message :: "string \<Rightarrow> string" where
  "skipped_message name =
     ''Skipped '' @ [CHR 0x22] @ split_first CHR ''/'' name @ ''.nmx'' @ [CHR 0x22]
       @ '': failed to import skeleton.''"

text \<open>
  The loop of \<^verbatim>\<open>read_buffer\<close> over \<^verbatim>\<open>zip.filelist\<close> and the warning after it. The loop
  variable is the parameter \<^verbatim>\<open>f\<close> itself: \<open>last_f\<close> is the member it was bound to last,
  and \<open>None\<close> while it is still the buffer. The result is what is returned or raised
  (\<^verbatim>\<open>None\<close> is returned after the warning), the dictionary \<^verbatim>\<open>attrs\<close> refers to after the
  call, and the events in order.
\<close>

fun member_loop ::
  "('c, 'r, 'o, 'n) env \<Rightarrow> 'c zipinfo list \<Rightarrow> 'c zipinfo option \<Rightarrow> 'o attrs option \<Rightarrow>
     (error + 'n option) \<times> 'o attrs option \<times> event list" where
  "member_loop E [] last_f attrs =
     (case last_f of
        None \<Rightarrow> (Inl AttributeError, attrs, [])
      | Some f \<Rightarrow> (Inr None, attrs, [Warning (skipped_message (filename f))]))"
| "member_loop E (f # fs) last_f attrs =
     (if qualifies (filename f) then
        (case setitem attrs ''file'' (Str (filename f)) of
           Inl e \<Rightarrow> (Inl e, attrs, [])
         | Inr attrs1 \<Rightarrow>
             (case setitem attrs1 ''id'' (Str (split_first CHR ''/'' (filename f))) of
                Inl e \<Rightarrow> (Inl e, attrs1, [])
              | Inr attrs2 \<Rightarrow>
                  (case read_nml E (content f) attrs2 of
                     Inl e \<Rightarrow> (Inl e, attrs2, [])
                   | Inr n \<Rightarrow> (Inr (Some n), attrs2, []))))
      else member_loop E fs (Some f) attrs)"

text \<open>
  \<^verbatim>\<open>NMXReader.read_buffer\<close>. The first equation is the check of \<^verbatim>\<open>f.read(0)\<close>, which
  raises \<^verbatim>\<open>ValueError\<close> for a text buffer. \<open>ZipFile\<close> is the library's constructor: it
  reads the archive's directory from the bytes, or raises.
\<close>

fun read_buffer ::
  "('c, 'r, 'o, 'n) env \<Rightarrow> ('b \<Rightarrow> error + 'c zipinfo list) \<Rightarrow> 'b buffer \<Rightarrow> 'o attrs option \<Rightarrow>
     (error + 'n option) \<times> 'o attrs option \<times> event list" where
  "read_buffer E ZipFile (TextIO s) attrs = (Inl ValueError, attrs, [])"
| "read_buffer E ZipFile (BytesIO b) attrs =
     (case ZipFile b of
        Inl e \<Rightarrow> (Inl e, attrs, [ZipOpened])
      | Inr filelist \<Rightarrow>
          (case member_loop E filelist None attrs of
             (res, attrs', evs) \<Rightarrow> (res, attrs', ZipOpened # evs)))"

section \<open>Writing one skeleton\<close>

text \<open>\<^verbatim>\<open>str(int(v))\<close>: the decimal digits of an integer, with a minus sign when negative.\<close>

fun str_nat :: "nat \<Rightarrow> string" where
  "str_nat n =
     (if n < 10 then [''0123456789'' ! n] else str_nat (n div 10) @ [''0123456789'' ! (n mod 10)])"

declare str_nat.simps [simp del]

definition str_int :: "int \<Rightarrow> string" where
  "str_int i = (if i < 0 then CHR ''-'' # str_nat (nat (- i)) else str_nat (nat i))"

text \<open>
  A row of the table that \<^verbatim>\<open>make_swc_table\<close> returns. The floating-point columns have
  the type \<open>'f\<close>; their rendering \<^verbatim>\<open>str(row[...])\<close> is a parameter of the writer.
\<close>

record 'f swc_row =
  PointNo :: int
  Radius :: 'f
  X :: 'f
  Y :: 'f
  Z :: 'f
  Parent :: int

text \<open>An element of \<^verbatim>\<open>xml.etree.ElementTree\<close>: tag, attributes in insertion order, children.\<close>

datatype xml = Element (tag: string) (attrib: "(string \<times> string) list") (children: "xml list")

text \<open>The body of the loop over \<^verbatim>\<open>swc.iterrows()\<close>, on the children of \<^verbatim>\<open>nodes\<close> and \<^verbatim>\<open>edges\<close>.\<close>

definition write_row ::
  "('f \<Rightarrow> string) \<Rightarrow> 'f swc_row \<Rightarrow> xml list \<times> xml list \<Rightarrow> xml list \<times> xml list" where
  "write_row str_float row acc =
     (case acc of (nodes, edges) \<Rightarrow>
        (let node = Element ''node''
                      [(''id'', str_int (PointNo row)),
                       (''radius'', str_float (Radius row)),
                       (''x'', str_float (X row)),
                       (''y'', str_float (Y row)),
                       (''z'', str_float (Z row))] [];
             nodes = nodes @ [node]
         in if Parent row \<noteq> - 1
            then (nodes, edges @ [Element ''edge''
                                    [(''source'', str_int (Parent row)),
                                     (''target'', str_int (PointNo row))] []])
            else (nodes, edges)))"

text \<open>
  \<^verbatim>\<open>write_nml\<close>: the document that is written to the file. \<open>make_swc_table\<close> is the
  table export of \<^verbatim>\<open>swc_io\<close>, which is not part of this module and is a parameter;
  \<open>name\<close> reads \<^verbatim>\<open>x.name\<close>. The identifiers of a row are whole numbers, which
  \<^verbatim>\<open>iterrows\<close> hands over unchanged in value. The node map that the function returns on
  request is the export's own and is left out.
\<close>

definition write_nml ::
  "('n \<Rightarrow> 'f swc_row list) \<Rightarrow> ('n \<Rightarrow> string) \<Rightarrow> ('f \<Rightarrow> string) \<Rightarrow> 'n \<Rightarrow> xml" where
  "write_nml make_swc_table name str_float x =
     (let parameters = Element ''parameters'' []
            [Element ''offset'' [(''x'', ''0''), (''y'', ''0''), (''z'', ''0'')] [],
             Element ''scale'' [(''x'', ''1''), (''y'', ''1''), (''z'', ''1'')] []];
          swc = make_swc_table x;
          (nodes, edges) = fold (write_row str_float) swc ([], []);
          thing = Element ''thing''
                    [(''id'', ''1''), (''name'', name x),
                     (''color.r'', ''0.0''), (''color.g'', ''0.0''),
                     (''color.b'', ''1.0''), (''color.a'', ''1.0'')]
                    [Element ''nodes'' [] nodes, Element ''edges'' [] edges]
      in Element ''things'' [] [parameters, thing])"

text \<open>The \<^verbatim>\<open>edge\<close> elements of a document, in document order.\<close>

definition edge_elements :: "xml \<Rightarrow> xml list" where
  "edge_elements doc =
     concat (map children
       (filter (\<lambda>e. tag e = ''edges'')
         (concat (map children (filter (\<lambda>e. tag e = ''thing'') (children doc))))))"

section \<open>Trees among the inputs\<close>

text \<open>
  The edge table as an undirected graph on the node identifiers: two nodes are adjacent
  when a row joins them, in either column order.
\<close>

definition adjacent :: "(int \<times> int) list \<Rightarrow> int \<Rightarrow> int \<Rightarrow> bool" where
  "adjacent es u v \<longleftrightarrow> (u, v) \<in> set es \<or> (v, u) \<in> set es"

definition adj_rel :: "(int \<times> int) list \<Rightarrow> (int \<times> int) set" where
  "adj_rel es = {(u, v). adjacent es u v}"

text \<open>Connected: every node of the table is joined to every other by a walk.\<close>

definition connected_graph :: "int list \<Rightarrow> (int \<times> int) list \<Rightarrow> bool" where
  "connected_graph ns es \<longleftrightarrow> (\<forall>u \<in> set ns. \<forall>v \<in> set ns. (u, v) \<in> (adj_rel es)\<^sup>*)"

text \<open>
  A cycle is a list of distinct nodes, each adjacent to the next and the last to the
  first: a single node with a self-loop, or at least three nodes (two nodes joined by an
  edge are one undirected edge passed twice).
\<close>

definition cycle :: "(int \<times> int) list \<Rightarrow> int list \<Rightarrow> bool" where
  "cycle es c \<longleftrightarrow>
     c \<noteq> [] \<and> length c \<noteq> 2 \<and> distinct c \<and> successively (adjacent es) c
       \<and> adjacent es (last c) (hd c)"

definition acyclic_graph :: "(int \<times> int) list \<Rightarrow> bool" where
  "acyclic_graph es \<longleftrightarrow> (\<forall>c. \<not> cycle es c)"

text \<open>
  A valid tree: every edge joins nodes of the node table, and the graph is connected
  and acyclic.
\<close>

definition valid_tree :: "int list \<Rightarrow> (int \<times> int) list \<Rightarrow> bool" where
  "valid_tree ns es \<longleftrightarrow>
     (\<forall>e \<in> set es. fst e \<in> set ns \<and> snd e \<in> set ns) \<and> connected_graph ns es \<and> acyclic_graph es"

section \<open>Notions used in the proofs\<close>

text \<open>
  The neighbours that one pass of the inner loop discovers: those of \<open>cs\<close> that are not
  yet seen, each once, in order.
\<close>

fun unseen :: "int list \<Rightarrow> int list \<Rightarrow> int list" where
  "unseen [] seen = []"
| "unseen (c # cs) seen = (if c \<in> set seen then unseen cs seen else c # unseen cs (c # seen))"

text \<open>
  The invariant of the traversal from \<open>s\<close>: the nodes seen are the source and the targets
  of the edges yielded; every target was yielded once; every edge joins a node to one of
  its neighbours; every node seen is reached from \<open>s\<close> along yielded edges; and the
  neighbours of a node that has left the queue are all seen.
\<close>

definition bfs_inv :: "graph \<Rightarrow> int \<Rightarrow> bfs_state \<Rightarrow> bool" where
  "bfs_inv g s st \<longleftrightarrow>
     (case st of (queue, seen, out) \<Rightarrow>
        set seen = insert s (snd ` set out)
      \<and> distinct (map snd out)
      \<and> s \<notin> snd ` set out
      \<and> set queue \<subseteq> set seen
      \<and> (\<forall>e \<in> set out. snd e \<in> set (neighbors g (fst e)))
      \<and> (\<forall>x \<in> set seen. (s, x) \<in> (set out)\<^sup>*)
      \<and> (\<forall>x \<in> set seen - set queue. set (neighbors g x) \<subseteq> set seen))"

text \<open>The edges that the traversal of the graph of an edge table yields.\<close>

definition bfs_out :: "(int \<times> int) list \<Rightarrow> (int \<times> int) list" where
  "bfs_out es = bfs_edges (add_edges_from es []) (fst (hd es))"

text \<open>
  The lookup that \<open>reindex\<close> makes when the edge table is not empty: the source of the tree
  edge whose target is \<open>x\<close>, if there is one.
\<close>

definition tree_lookup :: "(int \<times> int) list \<Rightarrow> int \<Rightarrow> int option" where
  "tree_lookup es =
     map_of (map (\<lambda>(s, t). (t, s))
       (tree_edges (bfs_tree (add_edges_from es []) (fst (hd es)))))"

text \<open>The parent of \<open>x\<close> in the traversal: the source of its tree edge, and -1 without one.\<close>

definition bfs_parent :: "(int \<times> int) list \<Rightarrow> int \<Rightarrow> int" where
  "bfs_parent es x = (case tree_lookup es x of None \<Rightarrow> - 1 | Some p \<Rightarrow> p)"

text \<open>
  The parent identifier that lines 118 to 123 give to node \<open>x\<close> of the node table \<open>ns\<close>:
  the parent in the traversal when every node of the table has one, and otherwise that
  parent after its passage through the float64 column.
\<close>

definition code_parent :: "int list \<Rightarrow> (int \<times> int) list \<Rightarrow> int \<Rightarrow> int" where
  "code_parent ns es x =
     (if \<forall>m \<in> set ns. tree_lookup es m \<noteq> None then bfs_parent es x
      else int_of_float64 (case tree_lookup es x of None \<Rightarrow> - 1 | Some p \<Rightarrow> float64_of_int p))"

text \<open>The edge table without the rows that join \<open>u\<close> and \<open>v\<close>.\<close>

definition without_edge :: "(int \<times> int) list \<Rightarrow> int \<Rightarrow> int \<Rightarrow> (int \<times> int) list" where
  "without_edge es u v = filter (\<lambda>e. e \<noteq> (u, v) \<and> e \<noteq> (v, u)) es"

text \<open>Reading a string of decimal digits back, to show that \<open>str_int\<close> is injective.\<close>

definition digit_value :: "char \<Rightarrow> nat" where
  "digit_value c = of_char c - 48"

definition nat_of_digits :: "string \<Rightarrow> nat" where
  "nat_of_digits s = foldl (\<lambda>acc c. 10 * acc + digit_value c) 0 s"

text \<open>The \<^verbatim>\<open>edge\<close> element that \<^verbatim>\<open>write_nml\<close> emits for a row of the table.\<close>

definition edge_of :: "'f swc_row \<Rightarrow> xml" where
  "edge_of row = Element ''edge''
     [(''source'', str_int (Parent row)), (''target'', str_int (PointNo row))] []"

section \<open>The graph of an edge table\<close>

lemma gnodes_simps: "gnodes [] = []" "gnodes ((k, ns) # g) = k # gnodes g"
  by (simp_all add: gnodes_def)

lemma add_nbr_simps:
  "add_nbr u v [] = []"
  "add_nbr u v ((k, ns) # g) =
     (k, if k = u then (if v \<in> set ns then ns else ns @ [v]) else ns) # add_nbr u v g"
  by (simp_all add: add_nbr_def)

lemma gnodes_add_node: "set (gnodes (add_node u g)) = insert u (set (gnodes g))"
  by (auto simp: add_node_def gnodes_def)

lemma gnodes_add_nbr: "gnodes (add_nbr u v g) = gnodes g"
  by (induction g) (auto simp: add_nbr_simps gnodes_simps)

lemma neighbors_notin: "x \<notin> set (gnodes g) \<Longrightarrow> neighbors g x = []"
  by (induction g) (auto simp: gnodes_simps)

lemma neighbors_append:
  "neighbors (g @ h) x = (if x \<in> set (gnodes g) then neighbors g x else neighbors h x)"
  by (induction g) (auto simp: gnodes_simps)

lemma neighbors_add_nbr_eq:
  "neighbors (add_nbr u v g) x =
     (if x = u \<and> u \<in> set (gnodes g)
      then (if v \<in> set (neighbors g u) then neighbors g u else neighbors g u @ [v])
      else neighbors g x)"
  by (induction g) (auto simp: add_nbr_simps gnodes_simps split: if_splits)

lemma neighbors_add_nbr:
  "set (neighbors (add_nbr u v g) x) =
     (if x = u \<and> u \<in> set (gnodes g) then insert v (set (neighbors g u)) else set (neighbors g x))"
  by (auto simp: neighbors_add_nbr_eq)

lemma neighbors_add_node: "neighbors (add_node u g) x = neighbors g x"
  by (auto simp: add_node_def neighbors_append neighbors_notin gnodes_simps)

lemma gnodes_add_edge: "set (gnodes (add_edge (u, v) g)) = insert u (insert v (set (gnodes g)))"
  by (auto simp: add_edge_def gnodes_add_nbr gnodes_add_node)

lemma neighbors_add_edge:
  "set (neighbors (add_edge (u, v) g) x) =
     set (neighbors g x) \<union> (if x = u then {v} else {}) \<union> (if x = v then {u} else {})"
  by (auto simp: add_edge_def neighbors_add_nbr gnodes_add_nbr gnodes_add_node neighbors_add_node)

lemma gnodes_add_edges_from:
  "set (gnodes (add_edges_from es g)) = set (gnodes g) \<union> fst ` set es \<union> snd ` set es"
  unfolding add_edges_from_def
  by (induction es arbitrary: g) (auto simp: gnodes_add_edge)

lemma neighbors_add_edges_from:
  "set (neighbors (add_edges_from es g) x) = set (neighbors g x) \<union> {y. adjacent es x y}"
  unfolding add_edges_from_def
  by (induction es arbitrary: g) (auto simp: neighbors_add_edge adjacent_def split: if_splits)

lemma hd_gnodes_add_edge: "g \<noteq> [] \<Longrightarrow> add_edge e g \<noteq> [] \<and> hd (gnodes (add_edge e g)) = hd (gnodes g)"
  by (cases g; cases e) (auto simp: add_edge_def add_node_def gnodes_def add_nbr_def)

lemma hd_gnodes_fold: "g \<noteq> [] \<Longrightarrow> fold add_edge es g \<noteq> [] \<and> hd (gnodes (fold add_edge es g)) = hd (gnodes g)"
  by (induction es arbitrary: g) (auto simp: hd_gnodes_add_edge)

lemma bfs_source_add_edges_from:
  "bfs_source (add_edges_from ((u, v) # es) []) = Inr u"
proof -
  let ?g = "add_edge (u, v) []"
  have g: "?g \<noteq> []" "hd (gnodes ?g) = u"
    by (auto simp: add_edge_def add_node_def gnodes_def add_nbr_def)
  from hd_gnodes_fold[OF g(1), of es] g(2)
  have "fold add_edge es ?g \<noteq> []" "hd (gnodes (fold add_edge es ?g)) = u" by auto
  then show ?thesis
    by (cases "fold add_edge es ?g") (auto simp: bfs_source_def add_edges_from_def gnodes_def)
qed

section \<open>The traversal keeps its invariant\<close>

lemma set_unseen: "set (unseen cs seen) = set cs - set seen"
  by (induction cs seen rule: unseen.induct) auto

lemma distinct_unseen: "distinct (unseen cs seen)"
  by (induction cs seen rule: unseen.induct) (auto simp: set_unseen)

lemma visit_children_unseen:
  "visit_children p cs (queue, seen, out) =
     (queue @ unseen cs seen, rev (unseen cs seen) @ seen, out @ map (Pair p) (unseen cs seen))"
  by (induction cs arbitrary: queue seen out) simp_all

lemma bfs_inv_init: "bfs_inv g s ([s], [s], [])"
  by (simp add: bfs_inv_def)

lemma bfs_inv_step:
  assumes inv: "bfs_inv g s (p # queue, seen, out)"
  shows "bfs_inv g s (visit_children p (neighbors g p) (queue, seen, out))"
proof -
  define new where "new = unseen (neighbors g p) seen"
  have new: "distinct new" "set new = set (neighbors g p) - set seen"
    by (simp_all add: new_def distinct_unseen set_unseen)
  have eq: "visit_children p (neighbors g p) (queue, seen, out)
               = (queue @ new, rev new @ seen, out @ map (Pair p) new)"
    by (simp add: new_def visit_children_unseen)
  note c = inv[unfolded bfs_inv_def prod.case]
  from c have seen: "set seen = insert s (snd ` set out)"
    and dist: "distinct (map snd out)"
    and s: "s \<notin> snd ` set out"
    and pq: "set (p # queue) \<subseteq> set seen"
    and nb: "\<forall>e \<in> set out. snd e \<in> set (neighbors g (fst e))"
    and reach: "\<forall>x \<in> set seen. (s, x) \<in> (set out)\<^sup>*"
    and closed: "\<forall>x \<in> set seen - set (p # queue). set (neighbors g x) \<subseteq> set seen"
    by blast+
  from pq have q: "p \<in> set seen" "set queue \<subseteq> set seen" by simp_all
  let ?out = "out @ map (Pair p) new"
  have 1: "set (rev new @ seen) = insert s (snd ` set ?out)"
    using seen by (auto simp: image_Un image_image)
  have 2: "distinct (map snd ?out)"
    using dist new seen by (auto simp: comp_def)
  have 3: "s \<notin> snd ` set ?out"
    using s new seen by (auto simp: image_Un image_image)
  have 4: "set (queue @ new) \<subseteq> set (rev new @ seen)"
    using q by auto
  have 5: "\<forall>e \<in> set ?out. snd e \<in> set (neighbors g (fst e))"
    using nb new by auto
  have mono: "(set out)\<^sup>* \<subseteq> (set ?out)\<^sup>*"
    by (rule rtrancl_mono) auto
  have 6: "\<forall>x \<in> set (rev new @ seen). (s, x) \<in> (set ?out)\<^sup>*"
  proof
    fix x assume x: "x \<in> set (rev new @ seen)"
    show "(s, x) \<in> (set ?out)\<^sup>*"
    proof (cases "x \<in> set seen")
      case True
      with reach mono show ?thesis by blast
    next
      case False
      with x have "x \<in> set new" by simp
      then have "(p, x) \<in> set ?out" by simp
      moreover have "(s, p) \<in> (set ?out)\<^sup>*" using reach q(1) mono by blast
      ultimately show ?thesis by (rule rtrancl_into_rtrancl[rotated])
    qed
  qed
  have 7: "\<forall>x \<in> set (rev new @ seen) - set (queue @ new). set (neighbors g x) \<subseteq> set (rev new @ seen)"
  proof
    fix x assume x: "x \<in> set (rev new @ seen) - set (queue @ new)"
    then have xs: "x \<in> set seen" "x \<notin> set queue" by auto
    show "set (neighbors g x) \<subseteq> set (rev new @ seen)"
    proof (cases "x = p")
      case True
      with new show ?thesis by auto
    next
      case False
      with xs closed have "set (neighbors g x) \<subseteq> set seen" by simp
      then show ?thesis by auto
    qed
  qed
  show ?thesis
    unfolding eq bfs_inv_def using 1 2 3 4 5 6 7 by simp
qed

lemma bfs_inv_loop:
  "bfs_inv g s st \<Longrightarrow> bfs_inv g s (bfs_loop g st) \<and> fst (bfs_loop g st) = []"
proof (induction g st rule: bfs_loop.induct)
  case (1 g seen out)
  then show ?case by simp
next
  case (2 g p queue seen out)
  from bfs_inv_step[OF "2.prems"] "2.IH" show ?case by simp
qed

lemma bfs_edges_inv: "\<exists>seen. bfs_inv g s ([], seen, bfs_edges g s)"
proof -
  have h: "bfs_inv g s (bfs_loop g ([s], [s], [])) \<and> fst (bfs_loop g ([s], [s], [])) = []"
    by (rule bfs_inv_loop[OF bfs_inv_init])
  obtain q seen out where r: "bfs_loop g ([s], [s], []) = (q, seen, out)"
    by (rule prod_cases3)
  from h have "bfs_inv g s ([], seen, out)"
    unfolding r by auto
  moreover have "bfs_edges g s = out"
    by (simp only: bfs_edges_def r snd_conv)
  ultimately show ?thesis by blast
qed

lemma bfs_edges_neighbors: "(p, c) \<in> set (bfs_edges g s) \<Longrightarrow> c \<in> set (neighbors g p)"
  using bfs_edges_inv[of g s] unfolding bfs_inv_def prod.case by fastforce

lemma bfs_edges_distinct: "distinct (map snd (bfs_edges g s))"
  using bfs_edges_inv[of g s] unfolding bfs_inv_def prod.case by blast

lemma bfs_edges_source: "s \<notin> snd ` set (bfs_edges g s)"
  using bfs_edges_inv[of g s] unfolding bfs_inv_def prod.case by blast

lemma bfs_edges_reach:
  "x = s \<or> x \<in> snd ` set (bfs_edges g s) \<Longrightarrow> (s, x) \<in> (set (bfs_edges g s))\<^sup>*"
  using bfs_edges_inv[of g s] unfolding bfs_inv_def prod.case by blast

lemma bfs_edges_complete:
  assumes "(s, x) \<in> {(a, b). b \<in> set (neighbors g a)}\<^sup>*"
  shows "x = s \<or> x \<in> snd ` set (bfs_edges g s)"
proof -
  obtain seen where inv: "bfs_inv g s ([], seen, bfs_edges g s)"
    using bfs_edges_inv by blast
  note c = inv[unfolded bfs_inv_def prod.case]
  from c have seen: "set seen = insert s (snd ` set (bfs_edges g s))" by blast
  from c have closed: "\<forall>x \<in> set seen - set []. set (neighbors g x) \<subseteq> set seen" by blast
  from assms have "x \<in> set seen"
  proof (induction rule: rtrancl_induct)
    case base
    show ?case using seen by simp
  next
    case (step y z)
    with closed show ?case by auto
  qed
  with seen show ?thesis by simp
qed

lemma tree_edges_simps:
  "tree_edges [] = []"
  "tree_edges ((k, ns) # t) = map (Pair k) ns @ tree_edges t"
  by (simp_all add: tree_edges_def)

lemma tree_edges_append: "tree_edges (t @ t') = tree_edges t @ tree_edges t'"
  by (simp add: tree_edges_def)

lemma tree_edges_add_node: "tree_edges (add_node u t) = tree_edges t"
  by (simp add: add_node_def tree_edges_append tree_edges_simps)

lemma add_nbr_notin: "u \<notin> set (gnodes t) \<Longrightarrow> add_nbr u v t = t"
  by (induction t) (auto simp: add_nbr_simps gnodes_simps)

lemma set_tree_edges_add_nbr_subset:
  "set (tree_edges (add_nbr u v t)) \<subseteq> insert (u, v) (set (tree_edges t))"
  by (induction t) (auto simp: add_nbr_simps tree_edges_simps split: if_splits)

lemma set_tree_edges_add_nbr:
  "u \<in> set (gnodes t) \<Longrightarrow> set (tree_edges (add_nbr u v t)) = insert (u, v) (set (tree_edges t))"
proof (induction t)
  case Nil
  then show ?case by (simp add: gnodes_simps)
next
  case (Cons a t)
  obtain k ns where a: "a = (k, ns)" by (cases a)
  show ?case
  proof (cases "k = u")
    case True
    have "set (tree_edges (add_nbr u v t)) \<subseteq> insert (u, v) (set (tree_edges t))"
      by (rule set_tree_edges_add_nbr_subset)
    moreover have "set (tree_edges t) \<subseteq> set (tree_edges (add_nbr u v t))"
    proof (cases "u \<in> set (gnodes t)")
      case True
      with Cons.IH show ?thesis by auto
    next
      case False
      then show ?thesis by (simp add: add_nbr_notin)
    qed
    ultimately show ?thesis using True a
      by (auto simp: add_nbr_simps tree_edges_simps)
  next
    case False
    with Cons a show ?thesis
      by (auto simp: add_nbr_simps tree_edges_simps gnodes_simps)
  qed
qed

lemma set_tree_edges_add_arc:
  "set (tree_edges (add_arc (u, v) t)) = insert (u, v) (set (tree_edges t))"
  by (simp add: add_arc_def set_tree_edges_add_nbr gnodes_add_node tree_edges_add_node)

lemma set_tree_edges_fold:
  "set (tree_edges (fold add_arc es t)) = set es \<union> set (tree_edges t)"
  by (induction es arbitrary: t) (auto simp: set_tree_edges_add_arc)

lemma distinct_gnodes_add_node: "distinct (gnodes t) \<Longrightarrow> distinct (gnodes (add_node u t))"
  by (auto simp: add_node_def gnodes_def)

lemma distinct_targets_add_nbr:
  "distinct (gnodes t) \<Longrightarrow> distinct (map snd (tree_edges t)) \<Longrightarrow>
   v \<notin> snd ` set (tree_edges t) \<Longrightarrow> distinct (map snd (tree_edges (add_nbr u v t)))"
proof (induction t)
  case Nil
  then show ?case by (simp add: add_nbr_simps tree_edges_simps)
next
  case (Cons a t)
  obtain k ns where a: "a = (k, ns)" by (cases a)
  have sub: "snd ` set (tree_edges (add_nbr u v t)) \<subseteq> insert v (snd ` set (tree_edges t))"
    using set_tree_edges_add_nbr_subset[of u v t] by force
  show ?case
  proof (cases "k = u")
    case True
    with Cons.prems a have "u \<notin> set (gnodes t)" by (simp add: gnodes_simps)
    then have "add_nbr u v t = t" by (rule add_nbr_notin)
    with Cons.prems a True show ?thesis
      by (auto simp: add_nbr_simps tree_edges_simps gnodes_simps comp_def image_Un)
  next
    case False
    from Cons.prems a have d: "distinct (map snd (tree_edges (add_nbr u v t)))"
      by (intro Cons.IH) (auto simp: tree_edges_simps gnodes_simps image_Un)
    from Cons.prems a have ns: "distinct ns" "v \<notin> set ns"
      "set ns \<inter> snd ` set (tree_edges t) = {}"
      by (auto simp: tree_edges_simps comp_def image_Un image_image)
    with sub have "set ns \<inter> snd ` set (tree_edges (add_nbr u v t)) = {}" by blast
    with d ns a False show ?thesis
      by (simp add: add_nbr_simps tree_edges_simps comp_def)
  qed
qed

lemma distinct_targets_add_arc:
  assumes "distinct (gnodes t)" "distinct (map snd (tree_edges t))" "v \<notin> snd ` set (tree_edges t)"
  shows "distinct (gnodes (add_arc (u, v) t)) \<and> distinct (map snd (tree_edges (add_arc (u, v) t)))"
proof -
  let ?t = "add_node v (add_node u t)"
  have 1: "distinct (gnodes ?t)" using assms(1) by (simp add: distinct_gnodes_add_node)
  have 2: "tree_edges ?t = tree_edges t" by (simp add: tree_edges_add_node)
  from distinct_targets_add_nbr[OF 1, of v u] assms(2,3) 2 1
  show ?thesis by (simp add: add_arc_def gnodes_add_nbr)
qed

lemma distinct_targets_fold:
  "distinct (gnodes t) \<Longrightarrow> distinct (map snd (tree_edges t)) \<Longrightarrow> distinct (map snd es) \<Longrightarrow>
   snd ` set es \<inter> snd ` set (tree_edges t) = {} \<Longrightarrow>
   distinct (map snd (tree_edges (fold add_arc es t)))"
proof (induction es arbitrary: t)
  case Nil
  then show ?case by simp
next
  case (Cons e es)
  obtain u v where e: "e = (u, v)" by (cases e)
  from Cons.prems e have v: "v \<notin> snd ` set (tree_edges t)" by auto
  from distinct_targets_add_arc[OF Cons.prems(1,2) v, of u]
  have d: "distinct (gnodes (add_arc e t))" "distinct (map snd (tree_edges (add_arc e t)))"
    by (simp_all add: e)
  have "snd ` set es \<inter> snd ` set (tree_edges (add_arc e t)) = {}"
    using Cons.prems(3,4) e by (auto simp: set_tree_edges_add_arc)
  with Cons.IH[OF d] Cons.prems(3) show ?case by simp
qed

lemma set_tree_edges_bfs_tree: "set (tree_edges (bfs_tree g s)) = set (bfs_edges g s)"
  by (simp add: bfs_tree_def set_tree_edges_fold tree_edges_add_node tree_edges_simps)

lemma distinct_tree_edges_bfs_tree: "distinct (map snd (tree_edges (bfs_tree g s)))"
  unfolding bfs_tree_def
  by (rule distinct_targets_fold)
     (simp_all add: bfs_edges_distinct tree_edges_add_node tree_edges_simps distinct_gnodes_add_node gnodes_simps)

section \<open>What canonicalization returns\<close>

lemma zip_map_self: "zip xs (map f xs) = map (\<lambda>x. (x, f x)) xs"
  by (induction xs) simp_all

lemma those_map:
  "those (map f xs) = (if \<forall>x \<in> set xs. f x \<noteq> None then Some (map (\<lambda>x. the (f x)) xs) else None)"
  by (induction xs) (auto split: option.splits)

lemma those_filled:
  "those (map (\<lambda>v. case v of None \<Rightarrow> Some d | Some x \<Rightarrow> Some x) vs)
     = Some (map (\<lambda>v. case v of None \<Rightarrow> d | Some x \<Rightarrow> x) vs)"
  by (induction vs) (auto split: option.splits)

lemma astype_fillna_float:
  "astype_int (fillna d (FloatColumn vs))
     = Inr (map (\<lambda>v. int_of_float64 (case v of None \<Rightarrow> d | Some x \<Rightarrow> x)) vs)"
  by (simp add: those_filled comp_def)

lemma parent_id_column_nonempty:
  assumes "es \<noteq> []" and "ns \<noteq> []"
  shows "parent_id_column ns es = Inr (map (code_parent ns es) ns)"
proof -
  from assms(1) obtain u v es' where es: "es = (u, v) # es'" by (cases es) auto
  have src: "bfs_source (add_edges_from es []) = Inr (fst (hd es))"
    unfolding es by (simp add: bfs_source_add_edges_from)
  let ?T = "tree_edges (bfs_tree (add_edges_from es []) (fst (hd es)))"
  have r: "reindex_source ?T ns =
      (case those (map (tree_lookup es) ns) of
         Some sources \<Rightarrow> Inr (IntColumn sources)
       | None \<Rightarrow> Inr (FloatColumn (map (map_option float64_of_int) (map (tree_lookup es) ns))))"
    unfolding tree_lookup_def
    by (simp add: reindex_source_def distinct_tree_edges_bfs_tree Let_def)
  have col: "(case reindex_source ?T ns of Inl e \<Rightarrow> Inl e
              | Inr parent_id \<Rightarrow> astype_int (fillna (- 1) parent_id))
            = Inr (map (code_parent ns es) ns)"
  proof (cases "\<forall>m \<in> set ns. tree_lookup es m \<noteq> None")
    case True
    then have "those (map (tree_lookup es) ns) = Some (map (\<lambda>x. the (tree_lookup es x)) ns)"
      by (simp add: those_map)
    moreover have "map (\<lambda>x. the (tree_lookup es x)) ns = map (code_parent ns es) ns"
      using True by (intro map_cong) (auto simp: code_parent_def bfs_parent_def)
    ultimately show ?thesis by (simp add: r)
  next
    case False
    then have "those (map (tree_lookup es) ns) = None"
      by (simp add: those_map)
    moreover have "map (\<lambda>v. int_of_float64 (case v of None \<Rightarrow> - 1 | Some x \<Rightarrow> x))
          (map (map_option float64_of_int) (map (tree_lookup es) ns))
        = map (code_parent ns es) ns"
      using False by (auto simp: code_parent_def split: option.splits)
    ultimately show ?thesis by (simp add: r astype_fillna_float del: fillna.simps astype_int.simps)
  qed
  show ?thesis
    using assms(2) col by (simp add: parent_id_column_def src Let_def)
qed

lemma canonicalize_nonempty:
  "es \<noteq> [] \<Longrightarrow> ns \<noteq> [] \<Longrightarrow>
   canonicalize ns es = Inr (sort_key fst (map (\<lambda>n. (n, code_parent ns es n)) ns))"
  by (simp add: canonicalize_def parent_id_column_nonempty zip_map_self)

lemma canonicalize_no_nodes: "canonicalize [] ((u, v) # es) = Inl AttributeError"
  by (simp add: canonicalize_def parent_id_column_def bfs_source_add_edges_from)

lemma canonicalize_Nil: "canonicalize ns [] = Inl IndexError"
  by (simp add: canonicalize_def parent_id_column_def add_edges_from_def bfs_source_def gnodes_def)

lemma map_fst_insort_key: "map fst (insort_key fst x xs) = insort (fst x) (map fst xs)"
  by (induction xs) simp_all

lemma map_fst_sort_key: "map fst (sort_key fst xs) = sort (map fst xs)"
  by (induction xs) (simp_all add: map_fst_insort_key)

lemma swapped_lookup:
  assumes "distinct (map snd T)"
  shows "map_of (map (\<lambda>(s, t). (t, s)) T) x = Some p \<longleftrightarrow> (p, x) \<in> set T"
proof -
  have h: "map fst (map (\<lambda>(s, t). (t, s)) T) = map snd T" by (induction T) auto
  have "distinct (map fst (map (\<lambda>(s, t). (t, s)) T))" unfolding h by (rule assms)
  then have "map_of (map (\<lambda>(s, t). (t, s)) T) x = Some p \<longleftrightarrow> (x, p) \<in> set (map (\<lambda>(s, t). (t, s)) T)"
    by (rule map_of_eq_Some_iff)
  also have "\<dots> \<longleftrightarrow> (p, x) \<in> set T" by force
  finally show ?thesis .
qed

lemma tree_lookup_Some: "tree_lookup es x = Some p \<longleftrightarrow> (p, x) \<in> set (bfs_out es)"
  using swapped_lookup[OF distinct_tree_edges_bfs_tree, of "add_edges_from es []" "fst (hd es)" x p]
  by (simp add: tree_lookup_def bfs_out_def set_tree_edges_bfs_tree)

lemma tree_lookup_None: "tree_lookup es x = None \<longleftrightarrow> x \<notin> snd ` set (bfs_out es)"
proof
  assume n: "tree_lookup es x = None"
  show "x \<notin> snd ` set (bfs_out es)"
  proof
    assume "x \<in> snd ` set (bfs_out es)"
    then obtain p where "(p, x) \<in> set (bfs_out es)" by force
    then have "tree_lookup es x = Some p" by (simp add: tree_lookup_Some)
    with n show False by simp
  qed
next
  assume x: "x \<notin> snd ` set (bfs_out es)"
  show "tree_lookup es x = None"
  proof (cases "tree_lookup es x")
    case None
    then show ?thesis .
  next
    case (Some p)
    then have "(p, x) \<in> set (bfs_out es)" by (simp add: tree_lookup_Some)
    with x show ?thesis by force
  qed
qed

lemma bfs_parent_edge: "(p, x) \<in> set (bfs_out es) \<Longrightarrow> bfs_parent es x = p"
  by (simp add: bfs_parent_def tree_lookup_Some[symmetric])

lemma bfs_parent_none: "x \<notin> snd ` set (bfs_out es) \<Longrightarrow> bfs_parent es x = - 1"
  by (simp add: bfs_parent_def tree_lookup_None[symmetric])

lemma neighbors_graph: "set (neighbors (add_edges_from es []) x) = {y. adjacent es x y}"
  by (simp add: neighbors_add_edges_from)

lemma bfs_out_adjacent: "(p, c) \<in> set (bfs_out es) \<Longrightarrow> adjacent es p c"
  using bfs_edges_neighbors[of p c "add_edges_from es []" "fst (hd es)"]
  by (simp add: bfs_out_def neighbors_graph)

lemma bfs_out_source: "fst (hd es) \<notin> snd ` set (bfs_out es)"
  unfolding bfs_out_def by (rule bfs_edges_source)

lemma bfs_out_complete:
  assumes "(fst (hd es), x) \<in> (adj_rel es)\<^sup>*"
  shows "x = fst (hd es) \<or> x \<in> snd ` set (bfs_out es)"
proof -
  have "{(a, b). b \<in> set (neighbors (add_edges_from es []) a)} = adj_rel es"
    by (simp add: neighbors_graph adj_rel_def)
  with assms show ?thesis
    unfolding bfs_out_def by (intro bfs_edges_complete) simp
qed

lemma bfs_out_reach:
  "x = fst (hd es) \<or> x \<in> snd ` set (bfs_out es) \<Longrightarrow> (fst (hd es), x) \<in> (set (bfs_out es))\<^sup>*"
  unfolding bfs_out_def by (rule bfs_edges_reach)

lemma map_fst_parents: "map fst (sort_key fst (map (\<lambda>n. (n, f n)) ns)) = sort ns"
  by (simp add: map_fst_sort_key comp_def)

lemma bfs_parent_cases:
  "bfs_parent es x = - 1 \<and> x \<notin> snd ` set (bfs_out es)
     \<or> (bfs_parent es x, x) \<in> set (bfs_out es)"
proof (cases "x \<in> snd ` set (bfs_out es)")
  case True
  then obtain p where "(p, x) \<in> set (bfs_out es)" by force
  then show ?thesis by (simp add: bfs_parent_edge)
next
  case False
  then show ?thesis by (simp add: bfs_parent_none)
qed

lemma drop_bits_small: "n < 9007199254740992 \<Longrightarrow> drop_bits n = 0"
  by (subst drop_bits.simps) simp

lemma drop_bits_two_53: "drop_bits 9007199254740992 = Suc 0"
  by (subst drop_bits.simps) (simp add: drop_bits_small)

lemma round_half_even_exact: "n \<le> 9007199254740992 \<Longrightarrow> round_half_even n = n"
proof (cases "n = 9007199254740992")
  case True
  then show ?thesis by (simp add: round_half_even_def drop_bits_two_53)
next
  case False
  moreover assume "n \<le> 9007199254740992"
  ultimately have "n < 9007199254740992" by simp
  then show ?thesis by (simp add: round_half_even_def drop_bits_small)
qed

lemma float64_of_int_exact: "\<bar>x\<bar> \<le> 2 ^ 53 \<Longrightarrow> float64_of_int x = x"
  by (simp add: float64_of_int_def round_half_even_exact)

lemma int_of_float64_exact: "\<bar>x\<bar> \<le> 2 ^ 53 \<Longrightarrow> int_of_float64 x = x"
  by (auto simp: int_of_float64_def)

lemma int_of_float64_minus_one: "int_of_float64 (- 1) = - 1"
  by (simp add: int_of_float64_def)

lemma code_parent_root:
  "x \<in> set ns \<Longrightarrow> x \<notin> snd ` set (bfs_out es) \<Longrightarrow> code_parent ns es x = - 1"
proof -
  assume x: "x \<in> set ns" "x \<notin> snd ` set (bfs_out es)"
  then have n: "tree_lookup es x = None" by (simp add: tree_lookup_None)
  with x(1) have "\<not> (\<forall>m \<in> set ns. tree_lookup es m \<noteq> None)" by blast
  with n show ?thesis by (auto simp: code_parent_def int_of_float64_minus_one)
qed

lemma code_parent_exact:
  assumes "\<forall>e \<in> set es. \<bar>fst e\<bar> \<le> 2 ^ 53 \<and> \<bar>snd e\<bar> \<le> 2 ^ 53"
  shows "code_parent ns es x = bfs_parent es x"
proof (cases "tree_lookup es x")
  case None
  then show ?thesis by (simp add: code_parent_def bfs_parent_def int_of_float64_minus_one)
next
  case (Some p)
  then have "adjacent es p x" by (simp add: tree_lookup_Some bfs_out_adjacent)
  with assms have "\<bar>p\<bar> \<le> 2 ^ 53" by (force simp: adjacent_def)
  with Some show ?thesis
    by (simp add: code_parent_def bfs_parent_def float64_of_int_exact int_of_float64_exact)
qed

section \<open>Paths, cycles and bridges\<close>

lemma adjacent_sym: "adjacent es u v \<Longrightarrow> adjacent es v u"
  by (auto simp: adjacent_def)

lemma sym_adj_rel: "sym (adj_rel es)"
  by (auto simp: sym_def adj_rel_def adjacent_def)

lemma adjacent_without_edge:
  "adjacent (without_edge es u v) a b \<longleftrightarrow> adjacent es a b \<and> (a, b) \<noteq> (u, v) \<and> (a, b) \<noteq> (v, u)"
  by (auto simp: adjacent_def without_edge_def)

lemma simple_path:
  assumes "(u, v) \<in> (adj_rel es)\<^sup>*"
  shows "\<exists>p. p \<noteq> [] \<and> hd p = u \<and> last p = v \<and> distinct p \<and> successively (adjacent es) p"
  using assms
proof (induction rule: converse_rtrancl_induct)
  case base
  show ?case by (rule exI[of _ "[v]"]) simp
next
  case (step u w)
  then obtain p where p: "p \<noteq> []" "hd p = w" "last p = v" "distinct p"
    "successively (adjacent es) p" by blast
  from step.hyps(1) have uw: "adjacent es u w" by (simp add: adj_rel_def)
  show ?case
  proof (cases "u \<in> set p")
    case True
    let ?q = "dropWhile (\<lambda>x. x \<noteq> u) p"
    from True have q: "?q \<noteq> []" by simp
    have "hd ?q = u" using hd_dropWhile[OF q] by simp
    moreover have "last ?q = v"
    proof -
      have "last (takeWhile (\<lambda>x. x \<noteq> u) p @ ?q) = last ?q" using q by (rule last_appendR)
      with p(3) show ?thesis by simp
    qed
    moreover have "distinct ?q" using p(4) by simp
    moreover have "successively (adjacent es) ?q"
    proof -
      have "successively (adjacent es) (takeWhile (\<lambda>x. x \<noteq> u) p @ ?q)" using p(5) by simp
      then show ?thesis unfolding successively_append_iff by blast
    qed
    ultimately show ?thesis using q by blast
  next
    case False
    with p uw have "u # p \<noteq> [] \<and> hd (u # p) = u \<and> last (u # p) = v \<and> distinct (u # p)
        \<and> successively (adjacent es) (u # p)"
      by (simp add: successively_Cons)
    then show ?thesis by blast
  qed
qed

lemma acyclic_no_loop: "acyclic_graph es \<Longrightarrow> adjacent es u v \<Longrightarrow> u \<noteq> v"
proof
  assume a: "acyclic_graph es" "adjacent es u v" "u = v"
  then have "cycle es [u]" by (simp add: cycle_def)
  with a(1) show False by (simp add: acyclic_graph_def)
qed

lemma acyclic_bridge:
  assumes ac: "acyclic_graph es" and uv: "adjacent es u v"
  shows "(u, v) \<notin> (adj_rel (without_edge es u v))\<^sup>*"
proof
  let ?es = "without_edge es u v"
  assume "(u, v) \<in> (adj_rel ?es)\<^sup>*"
  then obtain p where p: "p \<noteq> []" "hd p = u" "last p = v" "distinct p"
    "successively (adjacent ?es) p"
    using simple_path by blast
  from ac uv have ne: "u \<noteq> v" by (rule acyclic_no_loop)
  obtain a q where pa: "p = a # q" using p(1) by (cases p) auto
  with p(2) have a: "a = u" by simp
  from pa a p(3) ne have q: "q \<noteq> []" by auto
  then obtain b r where qb: "q = b # r" by (cases q) auto
  have len: "length p \<noteq> 2"
  proof
    assume "length p = 2"
    with pa qb have r: "r = []" by simp
    with pa qb a p(3) have "p = [u, v]" by simp
    with p(5) have "adjacent ?es u v" by simp
    then show False by (simp add: adjacent_without_edge)
  qed
  have "successively (adjacent es) p"
    using p(5) by (rule successively_mono) (simp add: adjacent_without_edge)
  moreover have "adjacent es (last p) (hd p)"
    using uv p(2,3) by (simp add: adjacent_sym)
  ultimately have "cycle es p"
    using p(1,4) len by (simp add: cycle_def)
  with ac show False by (simp add: acyclic_graph_def)
qed

lemma tree_edge_in_bfs_out:
  assumes vt: "valid_tree ns es" and uv: "(u, v) \<in> set es"
  shows "(u, v) \<in> set (bfs_out es) \<or> (v, u) \<in> set (bfs_out es)"
proof (rule ccontr)
  assume "\<not> ?thesis"
  then have nuv: "(u, v) \<notin> set (bfs_out es)" "(v, u) \<notin> set (bfs_out es)" by simp_all
  let ?s = "fst (hd es)"
  let ?es = "without_edge es u v"
  from vt have ends: "\<forall>e \<in> set es. fst e \<in> set ns \<and> snd e \<in> set ns"
    and conn: "connected_graph ns es" and ac: "acyclic_graph es"
    by (simp_all add: valid_tree_def)
  from uv have "es \<noteq> []" by auto
  then have "hd es \<in> set es" by simp
  with ends have s: "?s \<in> set ns" by blast
  from uv ends have u: "u \<in> set ns" and v: "v \<in> set ns" by force+
  have sub: "set (bfs_out es) \<subseteq> adj_rel ?es"
  proof
    fix e assume e: "e \<in> set (bfs_out es)"
    obtain p c where pc: "e = (p, c)" by (cases e)
    with e have "adjacent es p c" by (simp add: bfs_out_adjacent)
    moreover from e pc nuv have "(p, c) \<noteq> (u, v)" "(p, c) \<noteq> (v, u)" by auto
    ultimately show "e \<in> adj_rel ?es" by (simp add: pc adj_rel_def adjacent_without_edge)
  qed
  have reach: "(?s, x) \<in> (adj_rel ?es)\<^sup>*" if "x \<in> set ns" for x
  proof -
    from conn s that have "(?s, x) \<in> (adj_rel es)\<^sup>*" by (simp add: connected_graph_def)
    then have "x = ?s \<or> x \<in> snd ` set (bfs_out es)" by (rule bfs_out_complete)
    then have "(?s, x) \<in> (set (bfs_out es))\<^sup>*" by (rule bfs_out_reach)
    with rtrancl_mono[OF sub] show ?thesis by blast
  qed
  have "(u, ?s) \<in> (adj_rel ?es)\<^sup>*"
    using reach[OF u] sym_rtrancl[OF sym_adj_rel, of ?es] by (simp add: sym_def)
  from this reach[OF v] have "(u, v) \<in> (adj_rel ?es)\<^sup>*" by (rule rtrancl_trans)
  moreover from uv have "adjacent es u v" by (simp add: adjacent_def)
  ultimately show False using acyclic_bridge[OF ac] by blast
qed

lemma walk_reach:
  "successively (adjacent es) p \<Longrightarrow> x \<in> set p \<Longrightarrow> (hd p, x) \<in> (adj_rel es)\<^sup>*"
proof (induction p arbitrary: x)
  case Nil
  then show ?case by simp
next
  case (Cons a p)
  show ?case
  proof (cases "x = a")
    case True
    then show ?thesis by simp
  next
    case False
    with Cons.prems have xp: "x \<in> set p" by simp
    then have "p \<noteq> []" by auto
    with Cons.prems(1) have a: "adjacent es a (hd p)" and w: "successively (adjacent es) p"
      by (simp_all add: successively_Cons)
    from a have "(a, hd p) \<in> adj_rel es" by (simp add: adj_rel_def)
    with Cons.IH[OF w xp] show ?thesis by simp
  qed
qed

lemma connected_by_walk:
  assumes "successively (adjacent es) p" "set ns \<subseteq> set p"
  shows "connected_graph ns es"
  unfolding connected_graph_def
proof (intro ballI)
  fix u v assume "u \<in> set ns" "v \<in> set ns"
  with assms have u: "(hd p, u) \<in> (adj_rel es)\<^sup>*" and v: "(hd p, v) \<in> (adj_rel es)\<^sup>*"
    by (auto intro: walk_reach)
  from u have "(u, hd p) \<in> (adj_rel es)\<^sup>*"
    using sym_rtrancl[OF sym_adj_rel, of es] by (simp add: sym_def)
  from this v show "(u, v) \<in> (adj_rel es)\<^sup>*" by (rule rtrancl_trans)
qed

lemma acyclic_path3: "acyclic_graph [(1, 2), (2, 3)]"
  unfolding acyclic_graph_def
proof (intro allI notI)
  fix c assume c: "cycle [(1, 2), (2, 3)] c"
  show False
  proof (cases c)
    case Nil
    with c show ?thesis by (simp add: cycle_def)
  next
    case c1: (Cons a c1)
    show ?thesis
    proof (cases c1)
      case Nil
      with c c1 show ?thesis by (auto simp: cycle_def adjacent_def)
    next
      case c2: (Cons b c2)
      show ?thesis
      proof (cases c2)
        case Nil
        with c c1 c2 show ?thesis by (simp add: cycle_def)
      next
        case c3: (Cons d c3)
        show ?thesis
        proof (cases c3)
          case Nil
          with c c1 c2 c3 show ?thesis by (auto simp: cycle_def adjacent_def)
        next
          case (Cons e c4)
          with c c1 c2 c3 show ?thesis by (auto simp: cycle_def adjacent_def)
        qed
      qed
    qed
  qed
qed

lemma valid_tree_path3: "valid_tree [1, 2, 3] [(1, 2), (2, 3)]"
proof -
  have "connected_graph [1, 2, 3] [(1, 2), (2, 3)]"
    by (rule connected_by_walk[of _ "[1, 2, 3]"]) (simp_all add: adjacent_def)
  then show ?thesis by (simp add: valid_tree_def acyclic_path3)
qed

lemma acyclic_single_edge: "u \<noteq> v \<Longrightarrow> acyclic_graph [(u, v)]"
  unfolding acyclic_graph_def
proof (intro allI notI)
  fix c assume uv: "u \<noteq> v" and c: "cycle [(u, v)] c"
  show False
  proof (cases c)
    case Nil
    with c show ?thesis by (simp add: cycle_def)
  next
    case c1: (Cons a c1)
    show ?thesis
    proof (cases c1)
      case Nil
      with c c1 uv show ?thesis by (auto simp: cycle_def adjacent_def)
    next
      case c2: (Cons b c2)
      show ?thesis
      proof (cases c2)
        case Nil
        with c c1 c2 show ?thesis by (simp add: cycle_def)
      next
        case (Cons d c3)
        with c c1 c2 show ?thesis by (auto simp: cycle_def adjacent_def)
      qed
    qed
  qed
qed

section \<open>The loop over the members of an archive\<close>

lemma member_loop_found:
  assumes "find (\<lambda>f. qualifies (filename f)) filelist = Some f"
  shows "member_loop E filelist last_f attrs =
     (case attrs of
        None \<Rightarrow> (Inl TypeError, None, [])
      | Some d \<Rightarrow>
          (let attrs2 = Some (d(''file'' \<mapsto> Str (filename f),
                               ''id'' \<mapsto> Str (split_first CHR ''/'' (filename f))))
           in (case read_nml E (content f) attrs2 of
                 Inl e \<Rightarrow> (Inl e, attrs2, [])
               | Inr n \<Rightarrow> (Inr (Some n), attrs2, []))))"
  using assms
proof (induction filelist arbitrary: last_f)
  case Nil
  then show ?case by simp
next
  case (Cons g gs)
  show ?case
  proof (cases "qualifies (filename g)")
    case True
    with Cons.prems have "g = f" by simp
    with True show ?thesis
      by (cases attrs) (simp_all add: setitem_def Let_def)
  next
    case False
    with Cons.prems have "find (\<lambda>f. qualifies (filename f)) gs = Some f" by simp
    from Cons.IH[OF this] False show ?thesis by simp
  qed
qed

lemma member_loop_not_found:
  assumes "find (\<lambda>f. qualifies (filename f)) filelist = None"
  shows "member_loop E filelist last_f attrs =
     (case (if filelist = [] then last_f else Some (last filelist)) of
        None \<Rightarrow> (Inl AttributeError, attrs, [])
      | Some f \<Rightarrow> (Inr None, attrs, [Warning (skipped_message (filename f))]))"
  using assms
proof (induction filelist arbitrary: last_f)
  case Nil
  then show ?case by simp
next
  case (Cons g gs)
  then have nq: "\<not> qualifies (filename g)" and rest: "find (\<lambda>f. qualifies (filename f)) gs = None"
    by (simp_all split: if_splits)
  from Cons.IH[OF rest, of "Some g"] nq show ?case by simp
qed

lemma read_buffer_no_member:
  assumes "ZipFile b = Inr filelist" and "filelist \<noteq> []"
    and "find (\<lambda>f. qualifies (filename f)) filelist = None"
  shows "read_buffer E ZipFile (BytesIO b) attrs =
           (Inr None, attrs, [ZipOpened, Warning (skipped_message (filename (last filelist)))])"
  using assms by (simp add: member_loop_not_found[OF assms(3)])

section \<open>Decimal strings and the emitted elements\<close>

lemma digit_value_nth: "k < 10 \<Longrightarrow> digit_value (''0123456789'' ! k) = k"
proof -
  assume "k < 10"
  then have "k \<in> {0, 1, 2, 3, 4, 5, 6, 7, 8, 9}" by auto
  then show ?thesis by (auto simp: digit_value_def)
qed

lemma digit_nth_not_minus: "k < 10 \<Longrightarrow> ''0123456789'' ! k \<noteq> CHR ''-''"
proof -
  assume "k < 10"
  then have "k \<in> {0, 1, 2, 3, 4, 5, 6, 7, 8, 9}" by auto
  then show ?thesis by auto
qed

lemma nat_of_digits_str_nat: "nat_of_digits (str_nat n) = n"
proof (induction n rule: str_nat.induct)
  case (1 n)
  show ?case
  proof (cases "n < 10")
    case True
    then show ?thesis by (subst str_nat.simps) (simp add: nat_of_digits_def digit_value_nth)
  next
    case False
    with 1 have "nat_of_digits (str_nat (n div 10)) = n div 10" by simp
    with False show ?thesis
      by (subst str_nat.simps) (simp add: nat_of_digits_def digit_value_nth)
  qed
qed

lemma str_nat_inj: "str_nat m = str_nat n \<Longrightarrow> m = n"
  by (metis nat_of_digits_str_nat)

lemma hd_str_nat: "str_nat n \<noteq> [] \<and> hd (str_nat n) \<noteq> CHR ''-''"
proof (induction n rule: str_nat.induct)
  case (1 n)
  show ?case
  proof (cases "n < 10")
    case True
    then show ?thesis by (subst (1 2) str_nat.simps) (simp add: digit_nth_not_minus)
  next
    case False
    with 1 have "str_nat (n div 10) \<noteq> [] \<and> hd (str_nat (n div 10)) \<noteq> CHR ''-''" by simp
    with False show ?thesis by (subst (1 2) str_nat.simps) simp
  qed
qed

lemma str_int_inj: "str_int i = str_int j \<Longrightarrow> i = j"
proof -
  assume eq: "str_int i = str_int j"
  have neg: "hd (str_int k) = CHR ''-'' \<longleftrightarrow> k < 0" for k
    using hd_str_nat[of "nat k"] by (simp add: str_int_def)
  from eq neg[of i] neg[of j] have s: "i < 0 \<longleftrightarrow> j < 0" by simp
  show ?thesis
  proof (cases "i < 0")
    case True
    with s eq have "str_nat (nat (- i)) = str_nat (nat (- j))" by (simp add: str_int_def)
    then have "nat (- i) = nat (- j)" by (rule str_nat_inj)
    with True s show ?thesis by simp
  next
    case False
    with s eq have "str_nat (nat i) = str_nat (nat j)" by (simp add: str_int_def)
    then have "nat i = nat j" by (rule str_nat_inj)
    with False s show ?thesis by simp
  qed
qed

lemma fold_write_row:
  "fold (write_row str_float) swc (nodes, edges) =
     (nodes @ map (\<lambda>row. Element ''node''
                      [(''id'', str_int (PointNo row)),
                       (''radius'', str_float (Radius row)),
                       (''x'', str_float (X row)),
                       (''y'', str_float (Y row)),
                       (''z'', str_float (Z row))] []) swc,
      edges @ map (\<lambda>row. Element ''edge''
                      [(''source'', str_int (Parent row)),
                       (''target'', str_int (PointNo row))] [])
                (filter (\<lambda>row. Parent row \<noteq> - 1) swc))"
  by (induction swc arbitrary: nodes edges) (simp_all add: write_row_def Let_def)

lemma edge_elements_write_nml:
  "edge_elements (write_nml make_swc_table name str_float x) =
     map edge_of (filter (\<lambda>row. Parent row \<noteq> - 1) (make_swc_table x))"
  by (simp add: write_nml_def edge_elements_def fold_write_row Let_def edge_of_def)

lemma count_edges_of_row:
  assumes d: "distinct (map PointNo swc)" and r: "row \<in> set swc"
  shows "length (filter (\<lambda>e. map_of (attrib e) ''target'' = Some (str_int (PointNo row)))
           (map edge_of (filter (\<lambda>row. Parent row \<noteq> - 1) swc)))
         = (if Parent row = - 1 then 0 else 1)"
proof -
  have inj: "inj_on PointNo (set swc)" and ds: "distinct swc"
    using d by (simp_all add: distinct_map)
  have "filter (\<lambda>e. map_of (attrib e) ''target'' = Some (str_int (PointNo row)))
           (map edge_of (filter (\<lambda>row. Parent row \<noteq> - 1) swc))
        = map edge_of (filter (\<lambda>r'. r' = row \<and> Parent r' \<noteq> - 1) swc)"
  proof -
    have "(map_of (attrib (edge_of r')) ''target'' = Some (str_int (PointNo row))) = (r' = row)"
      if "r' \<in> set swc" for r'
      using that r inj by (auto simp: edge_of_def inj_on_def dest: str_int_inj)
    then have "filter (\<lambda>r'. map_of (attrib (edge_of r')) ''target'' = Some (str_int (PointNo row)))
                 (filter (\<lambda>row. Parent row \<noteq> - 1) swc)
             = filter (\<lambda>r'. r' = row) (filter (\<lambda>row. Parent row \<noteq> - 1) swc)"
      by (intro filter_cong) auto
    then show ?thesis by (simp add: filter_map comp_def conj_commute)
  qed
  moreover have "length (filter (\<lambda>r'. r' = row \<and> Parent r' \<noteq> - 1) swc)
      = (if Parent row = - 1 then 0 else 1)"
  proof (cases "Parent row = - 1")
    case True
    then have "filter (\<lambda>r'. r' = row \<and> Parent r' \<noteq> - 1) swc = []"
      by (auto simp: filter_empty_conv)
    with True show ?thesis by simp
  next
    case False
    then have "filter (\<lambda>r'. r' = row \<and> Parent r' \<noteq> - 1) swc = filter (\<lambda>r'. r' = row) swc"
      by (intro filter_cong) auto
    moreover have "length (filter (\<lambda>r'. r' = row) swc) = 1"
    proof -
      have "{r'. r' = row} \<inter> set swc = {row}" using r by auto
      with distinct_length_filter[OF ds, of "\<lambda>r'. r' = row"] show ?thesis by simp
    qed
    ultimately show ?thesis using False by simp
  qed
  ultimately show ?thesis by simp
qed

section \<open>The three-node scenario\<close>

text \<open>
  Claim C1. For the node table with identifiers 1, 2, 3 and the edge table with rows
  (1, 2), (2, 3), the graph's first node is 1, so the breadth-first traversal starts at
  node 1, and canonicalization returns the parent identifiers: node 1 has the sentinel -1,
  node 2 has parent 1 and node 3 has parent 2. The same mapping results when the node
  table lists the nodes in another order and the second edge is written as (3, 2).
\<close>

theorem canonicalize_three_nodes:
  "bfs_source (add_edges_from [(1, 2), (2, 3)] []) = Inr 1 \<and>
   canonicalize [1, 2, 3] [(1, 2), (2, 3)] = Inr [(1, - 1), (2, 1), (3, 2)] \<and>
   bfs_source (add_edges_from [(1, 2), (3, 2)] []) = Inr 1 \<and>
   canonicalize [3, 1, 2] [(1, 2), (3, 2)] = Inr [(1, - 1), (2, 1), (3, 2)]"
  by code_simp

section \<open>The single root\<close>

text \<open>
  The tree with the single node 1 has no edge: the graph is empty and
  \<^verbatim>\<open>list(G.nodes)[0]\<close> raises \<^verbatim>\<open>IndexError\<close>, so that no mapping is produced.
\<close>

lemma canonicalize_one_node: "valid_tree [1] [] \<and> canonicalize [1] [] = Inl IndexError"
proof -
  have "valid_tree [1] []"
    by (simp add: valid_tree_def connected_graph_def acyclic_graph_def cycle_def adjacent_def)
  then show ?thesis by (simp add: canonicalize_Nil)
qed

text \<open>
  Where every identifier of the edge table is a whole number of magnitude at most
  \<open>2 ^ 53\<close>, the float64 column holds every parent exactly, and the code returns the
  parents of the traversal.
\<close>

lemma code_parent_valid_tree:
  assumes "valid_tree ns es" and "\<forall>n \<in> set ns. \<bar>n\<bar> \<le> 2 ^ 53"
  shows "code_parent ns es x = bfs_parent es x"
proof (rule code_parent_exact)
  from assms(1) have "\<forall>e \<in> set es. fst e \<in> set ns \<and> snd e \<in> set ns"
    by (simp add: valid_tree_def)
  with assms(2) show "\<forall>e \<in> set es. \<bar>fst e\<bar> \<le> 2 ^ 53 \<and> \<bar>snd e\<bar> \<le> 2 ^ 53" by blast
qed

text \<open>
  Claim C2, as the code has it. For every connected acyclic input with at least one edge,
  with no node identifier equal to the sentinel -1 and with every node identifier of
  magnitude at most \<open>2 ^ 53\<close>, canonicalization returns a parent mapping with one row per
  row of the node table, exactly one node in it has the parent -1, and every other parent
  is a node of the node table.
\<close>

theorem canonicalize_single_root:
  assumes "valid_tree ns es" and "es \<noteq> []" and "- 1 \<notin> set ns"
    and "\<forall>n \<in> set ns. \<bar>n\<bar> \<le> 2 ^ 53"
  shows "\<exists>pm. canonicalize ns es = Inr pm \<and> map fst pm = sort ns
           \<and> (\<exists>!n. (n, - 1) \<in> set pm)
           \<and> (\<forall>(n, p) \<in> set pm. p = - 1 \<or> p \<in> set ns)"
proof -
  define pm where "pm = sort_key fst (map (\<lambda>n. (n, bfs_parent es n)) ns)"
  let ?s = "fst (hd es)"
  from assms(1) have ends: "\<forall>e \<in> set es. fst e \<in> set ns \<and> snd e \<in> set ns"
    and conn: "connected_graph ns es"
    by (simp_all add: valid_tree_def)
  from assms(2) have "hd es \<in> set es" by simp
  with ends have s: "?s \<in> set ns" by blast
  then have "ns \<noteq> []" by auto
  with assms(2) have "canonicalize ns es = Inr (sort_key fst (map (\<lambda>n. (n, code_parent ns es n)) ns))"
    by (rule canonicalize_nonempty)
  then have can: "canonicalize ns es = Inr pm"
    by (simp add: pm_def code_parent_valid_tree[OF assms(1) assms(4)])
  have pm: "set pm = (\<lambda>n. (n, bfs_parent es n)) ` set ns" by (simp add: pm_def)
  have fst: "map fst pm = sort ns" unfolding pm_def by (rule map_fst_parents)
  have root: "bfs_parent es ?s = - 1"
    by (rule bfs_parent_none) (rule bfs_out_source)
  have other: "bfs_parent es n \<in> set ns" if n: "n \<in> set ns" "n \<noteq> ?s" for n
  proof -
    from conn s n(1) have "(?s, n) \<in> (adj_rel es)\<^sup>*" by (simp add: connected_graph_def)
    then have "n = ?s \<or> n \<in> snd ` set (bfs_out es)" by (rule bfs_out_complete)
    with n(2) bfs_parent_cases[of es n] have "(bfs_parent es n, n) \<in> set (bfs_out es)" by blast
    then have "adjacent es (bfs_parent es n) n" by (rule bfs_out_adjacent)
    with ends show ?thesis by (force simp: adjacent_def)
  qed
  have "(?s, - 1) \<in> set pm" using s root pm by force
  moreover have "n = ?s" if "(n, - 1) \<in> set pm" for n
  proof (rule ccontr)
    assume ne: "n \<noteq> ?s"
    from that pm have n: "n \<in> set ns" "bfs_parent es n = - 1" by auto
    from other[OF n(1) ne] n(2) assms(3) show False by simp
  qed
  ultimately have ex1: "\<exists>!n. (n, - 1) \<in> set pm" by blast
  have "\<forall>(n, p) \<in> set pm. p = - 1 \<or> p \<in> set ns"
    using pm root other by auto
  with can fst ex1 show ?thesis by blast
qed

text \<open>The theorem at the path 1 - 2 - 3.\<close>

theorem canonicalize_single_root_witness:
  "valid_tree [1, 2, 3] [(1, 2), (2, 3)] \<and> [(1, 2), (2, 3)] \<noteq> ([] :: (int \<times> int) list)
   \<and> - 1 \<notin> set [1, 2, 3 :: int]
   \<and> list_all (\<lambda>n. \<bar>n\<bar> \<le> 2 ^ 53) [1, 2, 3 :: int]
   \<and> (\<exists>pm. canonicalize [1, 2, 3] [(1, 2), (2, 3)] = Inr pm \<and> map fst pm = sort [1, 2, 3]
         \<and> (\<exists>!n. (n, - 1) \<in> set pm)
         \<and> (\<forall>(n, p) \<in> set pm. p = - 1 \<or> p \<in> set [1, 2, 3]))"
proof -
  have a: "[(1, 2), (2, 3)] \<noteq> ([] :: (int \<times> int) list)" by simp
  have b: "- 1 \<notin> set [1, 2, 3 :: int]" by simp
  have c: "\<forall>n \<in> set [1, 2, 3 :: int]. \<bar>n\<bar> \<le> 2 ^ 53" by simp
  have d: "list_all (\<lambda>n. \<bar>n\<bar> \<le> 2 ^ 53) [1, 2, 3 :: int]" by simp
  from canonicalize_single_root[OF valid_tree_path3 a b c] valid_tree_path3 a b d
  show ?thesis by blast
qed

text \<open>
  Claim C2 as stated fails on the valid tree with the nodes -1 and 2 and the edge
  (-1, 2): the root -1 gets the sentinel and node 2 gets its parent -1, so two nodes
  have the parent -1.
\<close>

theorem canonicalize_single_root_counterexample:
  "valid_tree [- 1, 2] [(- 1, 2)] \<and>
   canonicalize [- 1, 2] [(- 1, 2)] = Inr [(- 1, - 1), (2, - 1)]"
proof -
  have "connected_graph [- 1, 2] [(- 1, 2)]"
    by (rule connected_by_walk[of _ "[- 1, 2]"]) (simp_all add: adjacent_def)
  then have 1: "valid_tree [- 1, 2] [(- 1, 2)]"
    by (simp add: valid_tree_def acyclic_single_edge)
  have 2: "canonicalize [- 1, 2] [(- 1, 2)] = Inr [(- 1, - 1), (2, - 1)]"
    by code_simp
  from 1 2 show ?thesis by simp
qed

section \<open>Edge-faithfulness\<close>

text \<open>
  Where every node identifier has a magnitude of at most \<open>2 ^ 53\<close>, the code is
  edge-faithful. For every such connected acyclic input, canonicalization returns a parent
  mapping of the node table: its rows are the node identifiers in ascending order, each
  node has one parent, and every row (u, v) of the edge table is a direct parent/child
  link in it. The mapping lists pairs (node_id, parent_id).
\<close>

lemma edge_faithful_exact_ids:
  assumes "valid_tree ns es" and "(u, v) \<in> set es" and "\<forall>n \<in> set ns. \<bar>n\<bar> \<le> 2 ^ 53"
  shows "\<exists>pm. canonicalize ns es = Inr pm \<and> map fst pm = sort ns
           \<and> (\<forall>n p q. (n, p) \<in> set pm \<longrightarrow> (n, q) \<in> set pm \<longrightarrow> p = q)
           \<and> ((v, u) \<in> set pm \<or> (u, v) \<in> set pm)"
proof -
  define pm where "pm = sort_key fst (map (\<lambda>n. (n, bfs_parent es n)) ns)"
  from assms(1, 2) have u: "u \<in> set ns" and v: "v \<in> set ns" by (force simp: valid_tree_def)+
  from assms(2) u have "es \<noteq> []" "ns \<noteq> []" by auto
  then have "canonicalize ns es = Inr (sort_key fst (map (\<lambda>n. (n, code_parent ns es n)) ns))"
    by (rule canonicalize_nonempty)
  then have can: "canonicalize ns es = Inr pm"
    by (simp add: pm_def code_parent_valid_tree[OF assms(1) assms(3)])
  have pm: "set pm = (\<lambda>n. (n, bfs_parent es n)) ` set ns" by (simp add: pm_def)
  have fst: "map fst pm = sort ns" unfolding pm_def by (rule map_fst_parents)
  from pm have fn: "\<forall>n p q. (n, p) \<in> set pm \<longrightarrow> (n, q) \<in> set pm \<longrightarrow> p = q" by auto
  from tree_edge_in_bfs_out[OF assms(1, 2)]
  have "bfs_parent es v = u \<or> bfs_parent es u = v" by (auto simp: bfs_parent_edge)
  with u v pm have "(v, u) \<in> set pm \<or> (u, v) \<in> set pm" by auto
  with can fst fn show ?thesis by blast
qed

text \<open>
  The nodes 2 and 9007199254740993, which is \<open>2 ^ 53 + 1\<close>, with the edge
  (9007199254740993, 2) are a connected acyclic input.
\<close>

lemma valid_tree_large_id: "valid_tree [2, 9007199254740993] [(9007199254740993, 2)]"
proof -
  have "connected_graph [2, 9007199254740993] [(9007199254740993, 2)]"
    by (rule connected_by_walk[of _ "[2, 9007199254740993]"]) (simp_all add: adjacent_def)
  then show ?thesis
    by (simp add: valid_tree_def acyclic_single_edge)
qed

text \<open>
  Claim C3 says that every row (u, v) of the edge table of a connected acyclic input is a
  direct parent/child link of the parent mapping. The code misses it at the nodes 2 and
  9007199254740993 with the edge (9007199254740993, 2), read with 64-bit identifiers. The
  traversal starts at 9007199254740993 and yields that edge. The start is the target of
  no edge, so its row of the reindexed column is NaN and the column is float64: the
  parent of node 2 becomes the double 9007199254740992, and that is what line 123
  converts back. Canonicalization returns the parent 9007199254740992 for node 2, which
  is not a node of the table, and the edge is not a link of the mapping.
\<close>

theorem canonicalize_rounds_parent:
  "canonicalize [2, 9007199254740993] [(9007199254740993, 2)]
     = Inr [(2, 9007199254740992), (9007199254740993, - 1)]"
  by code_simp

section \<open>Where the traversal starts\<close>

text \<open>
  Claim C4, as the code has it. The graph is built from the edge table alone, so for every
  input with a non-empty edge table the traversal starts at the first identifier of the
  first edge row; when that node is in the node table, canonicalization returns a parent
  mapping in which it has the parent -1.
\<close>

theorem canonicalize_starts_at_first_edge:
  "bfs_source (add_edges_from ((u, v) # es) []) = Inr u \<and>
   (u \<in> set ns \<longrightarrow> (\<exists>pm. canonicalize ns ((u, v) # es) = Inr pm \<and> (u, - 1) \<in> set pm))"
proof (intro conjI impI)
  show "bfs_source (add_edges_from ((u, v) # es) []) = Inr u"
    by (rule bfs_source_add_edges_from)
next
  assume u: "u \<in> set ns"
  let ?es = "(u, v) # es"
  define pm where "pm = sort_key fst (map (\<lambda>n. (n, code_parent ns ?es n)) ns)"
  from u have "ns \<noteq> []" by auto
  then have can: "canonicalize ns ?es = Inr pm" by (simp add: pm_def canonicalize_nonempty)
  have "fst (hd ?es) \<notin> snd ` set (bfs_out ?es)" by (rule bfs_out_source)
  then have "u \<notin> snd ` set (bfs_out ?es)" by simp
  with u have "code_parent ns ?es u = - 1" by (rule code_parent_root)
  with u have "(u, - 1) \<in> set pm" by (force simp: pm_def)
  with can show "\<exists>pm. canonicalize ns ?es = Inr pm \<and> (u, - 1) \<in> set pm" by blast
qed

text \<open>The theorem at the node table 1, 2, 3 with the edge rows (2, 3), (1, 2).\<close>

theorem canonicalize_starts_at_first_edge_witness:
  "2 \<in> set [1, 2, 3 :: int] \<and>
   bfs_source (add_edges_from [(2, 3), (1, 2)] []) = Inr 2 \<and>
   (\<exists>pm. canonicalize [1, 2, 3] [(2, 3), (1, 2)] = Inr pm \<and> (2, - 1) \<in> set pm)"
  using canonicalize_starts_at_first_edge[of 2 3 "[(1, 2)]" "[1, 2, 3]"] by simp

text \<open>
  Claim C4 as stated fails there: the first node of the node table is 1, the traversal
  starts at node 2, and node 1 gets the parent 2.
\<close>

theorem canonicalize_first_node_counterexample:
  "bfs_source (add_edges_from [(2, 3), (1, 2)] []) = Inr 2 \<and>
   canonicalize [1, 2, 3] [(2, 3), (1, 2)] = Inr [(1, 2), (2, - 1), (3, 2)]"
  by code_simp

section \<open>Edges to unknown nodes\<close>

text \<open>
  The nodes 2 and 9007199254740993 with the edges (9007199254740993, 2) and (2, 7), read
  with 64-bit identifiers: node 7 is unknown, and the parent of node 2 comes back from the
  float64 column as 9007199254740992, which no row of the edge table joins to node 2.
\<close>

lemma canonicalize_dangling_edge_rounds:
  "canonicalize [2, 9007199254740993] [(9007199254740993, 2), (2, 7)]
     = Inr [(2, 9007199254740992), (9007199254740993, - 1)]"
  by code_simp

text \<open>
  Claim C6, as the code has it. For every input with a non-empty node table whose edge
  table has a row with an identifier that is not in the node table, and whose edge
  identifiers have a magnitude of at most \<open>2 ^ 53\<close>, canonicalization does not fail: it
  returns a parent mapping with one row per row of the node table, in which every parent
  is -1 or a node adjacent to the child in the edge table (possibly the unknown one). The
  unknown identifier gets no row.
\<close>

theorem canonicalize_dangling_edge:
  assumes "(u, v) \<in> set es" and "u \<notin> set ns \<or> v \<notin> set ns" and "ns \<noteq> []"
    and "\<forall>e \<in> set es. \<bar>fst e\<bar> \<le> 2 ^ 53 \<and> \<bar>snd e\<bar> \<le> 2 ^ 53"
  shows "\<exists>pm. canonicalize ns es = Inr pm \<and> map fst pm = sort ns
           \<and> (\<forall>(n, p) \<in> set pm. p = - 1 \<or> adjacent es p n)"
proof -
  define pm where "pm = sort_key fst (map (\<lambda>n. (n, bfs_parent es n)) ns)"
  from assms(1) have "es \<noteq> []" by auto
  then have "canonicalize ns es = Inr (sort_key fst (map (\<lambda>n. (n, code_parent ns es n)) ns))"
    using assms(3) by (rule canonicalize_nonempty)
  then have can: "canonicalize ns es = Inr pm"
    by (simp add: pm_def code_parent_exact[OF assms(4)])
  have fst: "map fst pm = sort ns" unfolding pm_def by (rule map_fst_parents)
  have "bfs_parent es n = - 1 \<or> adjacent es (bfs_parent es n) n" for n
    using bfs_parent_cases[of es n] by (auto intro: bfs_out_adjacent)
  then have "\<forall>(n, p) \<in> set pm. p = - 1 \<or> adjacent es p n" by (auto simp: pm_def)
  with can fst show ?thesis by blast
qed

text \<open>The theorem at the node table 1, 2, 3 with an edge to the unknown node 4.\<close>

theorem canonicalize_dangling_edge_witness:
  "(3, 4) \<in> set [(1, 2), (2, 3), (3 :: int, 4 :: int)] \<and> 4 \<notin> set [1, 2, 3 :: int] \<and>
   [1, 2, 3 :: int] \<noteq> [] \<and>
   list_all (\<lambda>e. \<bar>fst e\<bar> \<le> 2 ^ 53 \<and> \<bar>snd e\<bar> \<le> 2 ^ 53) [(1, 2), (2, 3), (3 :: int, 4 :: int)] \<and>
   (\<exists>pm. canonicalize [1, 2, 3] [(1, 2), (2, 3), (3, 4)] = Inr pm \<and> map fst pm = sort [1, 2, 3]
      \<and> (\<forall>(n, p) \<in> set pm. p = - 1 \<or> adjacent [(1, 2), (2, 3), (3, 4)] p n))"
proof -
  have a: "(3, 4) \<in> set [(1, 2), (2, 3), (3 :: int, 4 :: int)]" by simp
  have b: "4 \<notin> set [1, 2, 3 :: int]" by simp
  then have c: "3 \<notin> set [1, 2, 3 :: int] \<or> 4 \<notin> set [1, 2, 3 :: int]" by (rule disjI2)
  have d: "[1, 2, 3 :: int] \<noteq> []" by simp
  have e: "\<forall>e \<in> set [(1, 2), (2, 3), (3 :: int, 4 :: int)]. \<bar>fst e\<bar> \<le> 2 ^ 53 \<and> \<bar>snd e\<bar> \<le> 2 ^ 53"
    by simp
  have f: "list_all (\<lambda>e. \<bar>fst e\<bar> \<le> 2 ^ 53 \<and> \<bar>snd e\<bar> \<le> 2 ^ 53) [(1, 2), (2, 3), (3 :: int, 4 :: int)]"
    by simp
  from canonicalize_dangling_edge[OF a c d e] a b d f show ?thesis by blast
qed

text \<open>
  Claim C6 as stated fails there: the edge (3, 4) names node 4, which the node table does
  not have, and canonicalization returns a parent mapping instead of raising.
\<close>

theorem canonicalize_dangling_edge_counterexample:
  "4 \<notin> set [1, 2, 3 :: int] \<and>
   canonicalize [1, 2, 3] [(1, 2), (2, 3), (3, 4)] = Inr [(1, - 1), (2, 1), (3, 2)]"
  by code_simp

section \<open>The archive reader\<close>

text \<open>
  Claim C8. For every call of the archive reader with a buffer opened in text mode (its
  \<^verbatim>\<open>read\<close> yields \<^verbatim>\<open>str\<close>, not \<^verbatim>\<open>bytes\<close>), the reader raises the error of its input check,
  the \<^verbatim>\<open>ValueError\<close> of line 167 (the specification's InputTypeError), before the archive is
  opened: no event is recorded, and the attributes are untouched.
\<close>

theorem read_buffer_text:
  "read_buffer E ZipFile (TextIO s) attrs = (Inl ValueError, attrs, []) \<and>
   ZipOpened \<notin> set (snd (snd (read_buffer E ZipFile (TextIO s) attrs)))"
  by simp

text \<open>
  Claim C10. When the archive holds a qualifying member (\<open>f\<close> is the first one), the
  reader stores the keys \<^verbatim>\<open>file\<close> and \<^verbatim>\<open>id\<close> in the dictionary the caller passed, whatever
  the decoding of the member returns afterwards; and with \<^verbatim>\<open>attrs = None\<close> the first of
  these assignments raises \<^verbatim>\<open>TypeError\<close>, so that no neuron is returned.
\<close>

theorem read_buffer_attrs:
  assumes "ZipFile b = Inr filelist"
    and "find (\<lambda>f. qualifies (filename f)) filelist = Some f"
  shows "fst (snd (read_buffer E ZipFile (BytesIO b) (Some d))) =
           Some (d(''file'' \<mapsto> Str (filename f),
                   ''id'' \<mapsto> Str (split_first CHR ''/'' (filename f)))) \<and>
         read_buffer E ZipFile (BytesIO b) None = (Inl TypeError, None, [ZipOpened])"
  using assms(1)
  by (simp add: member_loop_found[OF assms(2)] Let_def split: sum.splits)

text \<open>
  The theorem at an archive with two members, the second of which qualifies, read with
  an empty dictionary and with \<^verbatim>\<open>None\<close>.
\<close>

theorem read_buffer_attrs_witness:
  "(\<lambda>b. Inr b :: error + unit zipinfo list)
      [\<lparr>filename = ''n1/annotation.xml'', content = ()\<rparr>,
       \<lparr>filename = ''n1/skeleton.nml'', content = ()\<rparr>]
     = Inr [\<lparr>filename = ''n1/annotation.xml'', content = ()\<rparr>,
            \<lparr>filename = ''n1/skeleton.nml'', content = ()\<rparr>] \<and>
   find (\<lambda>f. qualifies (filename f))
      [\<lparr>filename = ''n1/annotation.xml'', content = ()\<rparr>,
       \<lparr>filename = ''n1/skeleton.nml'', content = ()\<rparr>]
     = Some \<lparr>filename = ''n1/skeleton.nml'', content = ()\<rparr> \<and>
   fst (snd (read_buffer
      \<lparr>load_tables = \<lambda>c. Inr ([(1 :: int, ()), (2, ())], [(1 :: int, 2 :: int)]),
       TreeNeuron = \<lambda>rows attrs. Inr rows\<rparr>
      (\<lambda>b. Inr b)
      (BytesIO [\<lparr>filename = ''n1/annotation.xml'', content = ()\<rparr>,
                \<lparr>filename = ''n1/skeleton.nml'', content = ()\<rparr>])
      (Some (Map.empty :: unit attrs))))
     = Some [''file'' \<mapsto> Str ''n1/skeleton.nml'', ''id'' \<mapsto> Str ''n1''] \<and>
   read_buffer
      \<lparr>load_tables = \<lambda>c. Inr ([(1 :: int, ()), (2, ())], [(1 :: int, 2 :: int)]),
       TreeNeuron = \<lambda>rows attrs. Inr rows\<rparr>
      (\<lambda>b. Inr b)
      (BytesIO [\<lparr>filename = ''n1/annotation.xml'', content = ()\<rparr>,
                \<lparr>filename = ''n1/skeleton.nml'', content = ()\<rparr>])
      (None :: unit attrs option)
     = (Inl TypeError, None, [ZipOpened])"
proof -
  let ?fl = "[\<lparr>filename = ''n1/annotation.xml'', content = ()\<rparr>,
              \<lparr>filename = ''n1/skeleton.nml'', content = ()\<rparr>]"
  let ?f = "\<lparr>filename = ''n1/skeleton.nml'', content = ()\<rparr>"
  have z: "(\<lambda>b. Inr b :: error + unit zipinfo list) ?fl = Inr ?fl" by simp
  have q: "find (\<lambda>f. qualifies (filename f)) ?fl = Some ?f"
    by (simp add: qualifies_def endswith_def)
  have id: "split_first CHR ''/'' ''n1/skeleton.nml'' = ''n1''"
    by (simp add: split_first_def)
  have sel: "filename ?f = ''n1/skeleton.nml''" by simp
  note t = read_buffer_attrs[of "\<lambda>b. Inr b" ?fl ?fl ?f, OF z q, unfolded sel id]
  show ?thesis
    apply (intro conjI)
       apply (rule z)
      apply (rule q)
     apply (rule t[THEN conjunct1])
    apply (rule t[THEN conjunct2])
    done
qed

text \<open>
  Claim C7 at an archive without members. \<^verbatim>\<open>zip.filelist\<close> is empty, the loop body never
  runs, and \<^verbatim>\<open>f\<close> in the warning is still the buffer, which has no attribute
  \<^verbatim>\<open>filename\<close>: the reader raises \<^verbatim>\<open>AttributeError\<close> and logs nothing.
\<close>

theorem read_buffer_empty_archive:
  "find (\<lambda>f. qualifies (filename f)) [] = None \<and>
   read_buffer E (\<lambda>b. Inr b) (BytesIO []) attrs = (Inl AttributeError, attrs, [ZipOpened])"
  by simp

section \<open>The edge elements of the written document\<close>

text \<open>
  Claim C9. For every neuron, the \<^verbatim>\<open>edge\<close> elements of the document that \<^verbatim>\<open>write_nml\<close>
  writes are, in the order of the exported table, one element per row whose parent is not
  -1, with \<^verbatim>\<open>source\<close> the row's parent identifier and \<^verbatim>\<open>target\<close> the row's own
  identifier; rows with parent -1 give no element. When the identifiers of the table are
  distinct, exactly one \<^verbatim>\<open>edge\<close> element has a non-root row's identifier as its target and
  none has a root's. The two-row table (root 1, child 2 with parent 1) gives the single
  element with source 1 and target 2.
\<close>

theorem write_nml_edges:
  "edge_elements (write_nml make_swc_table name str_float x) =
     map (\<lambda>row. Element ''edge''
                  [(''source'', str_int (Parent row)), (''target'', str_int (PointNo row))] [])
         (filter (\<lambda>row. Parent row \<noteq> - 1) (make_swc_table x))
   \<and> (distinct (map PointNo (make_swc_table x)) \<longrightarrow>
        (\<forall>row \<in> set (make_swc_table x).
           length (filter (\<lambda>e. map_of (attrib e) ''target'' = Some (str_int (PointNo row)))
                    (edge_elements (write_nml make_swc_table name str_float x)))
             = (if Parent row = - 1 then 0 else 1)))
   \<and> edge_elements (write_nml (\<lambda>n. n) name str_float
        [\<lparr>PointNo = 1, Radius = r1, X = x1, Y = y1, Z = z1, Parent = - 1\<rparr>,
         \<lparr>PointNo = 2, Radius = r2, X = x2, Y = y2, Z = z2, Parent = 1\<rparr>])
      = [Element ''edge'' [(''source'', ''1''), (''target'', ''2'')] []]"
proof (intro conjI impI ballI)
  show "edge_elements (write_nml make_swc_table name str_float x) =
     map (\<lambda>row. Element ''edge''
                  [(''source'', str_int (Parent row)), (''target'', str_int (PointNo row))] [])
         (filter (\<lambda>row. Parent row \<noteq> - 1) (make_swc_table x))"
    by (simp add: edge_elements_write_nml edge_of_def[abs_def])
next
  fix row
  assume "distinct (map PointNo (make_swc_table x))" and "row \<in> set (make_swc_table x)"
  then show "length (filter (\<lambda>e. map_of (attrib e) ''target'' = Some (str_int (PointNo row)))
                    (edge_elements (write_nml make_swc_table name str_float x)))
             = (if Parent row = - 1 then 0 else 1)"
    unfolding edge_elements_write_nml by (rule count_edges_of_row)
next
  have one: "str_int 1 = ''1''" and two: "str_int 2 = ''2''"
    by (simp_all add: str_int_def str_nat.simps)
  show "edge_elements (write_nml (\<lambda>n. n) name str_float
        [\<lparr>PointNo = 1, Radius = r1, X = x1, Y = y1, Z = z1, Parent = - 1\<rparr>,
         \<lparr>PointNo = 2, Radius = r2, X = x2, Y = y2, Z = z2, Parent = 1\<rparr>])
      = [Element ''edge'' [(''source'', ''1''), (''target'', ''2'')] []]"
    by (simp add: edge_elements_write_nml edge_of_def one two)
qed

text \<open>The theorem at the two-row table, with the floating-point columns kept as text.\<close>

theorem write_nml_edges_witness:
  "distinct (map PointNo
      [\<lparr>PointNo = 1, Radius = ''1.0'', X = ''0.0'', Y = ''0.0'', Z = ''0.0'', Parent = - 1\<rparr>,
       \<lparr>PointNo = 2, Radius = ''1.0'', X = ''1.0'', Y = ''0.0'', Z = ''0.0'', Parent = 1\<rparr>]) \<and>
   length (filter (\<lambda>e. map_of (attrib e) ''target'' = Some (str_int 2))
      (edge_elements (write_nml (\<lambda>n. n) (\<lambda>n. ''neuron'') (\<lambda>v. v)
         [\<lparr>PointNo = 1, Radius = ''1.0'', X = ''0.0'', Y = ''0.0'', Z = ''0.0'', Parent = - 1\<rparr>,
          \<lparr>PointNo = 2, Radius = ''1.0'', X = ''1.0'', Y = ''0.0'', Z = ''0.0'', Parent = 1\<rparr>])))
     = 1 \<and>
   length (filter (\<lambda>e. map_of (attrib e) ''target'' = Some (str_int 1))
      (edge_elements (write_nml (\<lambda>n. n) (\<lambda>n. ''neuron'') (\<lambda>v. v)
         [\<lparr>PointNo = 1, Radius = ''1.0'', X = ''0.0'', Y = ''0.0'', Z = ''0.0'', Parent = - 1\<rparr>,
          \<lparr>PointNo = 2, Radius = ''1.0'', X = ''1.0'', Y = ''0.0'', Z = ''0.0'', Parent = 1\<rparr>])))
     = 0"
proof -
  have one: "str_int 1 = ''1''" and two: "str_int 2 = ''2''"
    by (simp_all add: str_int_def str_nat.simps)
  from write_nml_edges[of "\<lambda>n. n" "\<lambda>n. ''neuron''" "\<lambda>v. v"
      "[\<lparr>PointNo = 1, Radius = ''1.0'', X = ''0.0'', Y = ''0.0'', Z = ''0.0'', Parent = - 1\<rparr>,
        \<lparr>PointNo = 2, Radius = ''1.0'', X = ''1.0'', Y = ''0.0'', Z = ''0.0'', Parent = 1\<rparr>]"]
  show ?thesis by (simp add: one two)
qed

end
